theory Spec2Isabelle
  imports Main "HOL-Library.Word"
begin

section \<open>The C environment the two converters run in\<close>

text \<open>
  The repository holds two programs, \<^verbatim>\<open>bin2c/main.c\<close> and \<^verbatim>\<open>bin2h/main.c\<close>.
  Both are written against the C standard library only. This section fixes the model of
  that library: characters, the integer limits of \<^verbatim>\<open>limits.h\<close>, \<^verbatim>\<open>toupper\<close>,
  the conversions of \<^verbatim>\<open>fprintf\<close> the programs use, and the stdio calls as
  transitions of an explicit world.
\<close>

subsection \<open>Characters and C strings\<close>

definition NUL :: char where
  "NUL = CHR 0x00"

definition NL :: char where
  "NL = CHR 0x0A"

definition DQ :: char where
  "DQ = CHR 0x22"

text \<open>
  A \<^verbatim>\<open>char *\<close> argument is modelled by the characters stored from the pointer on.
  The terminator is the first \<open>NUL\<close>, or the end of the list: reading at the index just
  past the list gives \<open>NUL\<close>. \<open>cstr\<close> is the string such a pointer denotes.
\<close>

definition deref :: "string \<Rightarrow> nat \<Rightarrow> char" where
  "deref mem i = (if i < length mem then mem ! i else NUL)"

definition cstr :: "string \<Rightarrow> string" where
  "cstr mem = takeWhile (\<lambda>c. c \<noteq> NUL) mem"

definition strlen :: "string \<Rightarrow> nat" where
  "strlen mem = length (cstr mem)"

text \<open>
  Modelled from the spec: \<^verbatim>\<open>toupper\<close> of the C library (in the "C" locale), which
  the repository calls and does not define: the lower-case letters \<open>a\<close>..\<open>z\<close> go to
  \<open>A\<close>..\<open>Z\<close>, every other character is returned as it is.
\<close>

definition toupper :: "char \<Rightarrow> char" where
  "toupper c =
     (if 97 \<le> (of_char c :: int) \<and> (of_char c :: int) \<le> 122
      then char_of ((of_char c :: int) - 32) else c)"

subsection \<open>Integer types and their limits\<close>

text \<open>
  \<^verbatim>\<open>unsigned short\<close> is a 16-bit word and \<^verbatim>\<open>USHRT_MAX\<close> is 65535, the bound
  the spec names. \<^verbatim>\<open>long\<close> is a word of any width \<open>'a\<close> (32 bits on ILP32 and
  LLP64 targets, 64 bits on LP64), read as two's complement by \<open>sint\<close>;
  \<^verbatim>\<open>LONG_MAX\<close> is the largest value of that width.
  Modelled from the spec: \<^verbatim>\<open>SCHAR_MAX\<close>, \<^verbatim>\<open>SHRT_MAX\<close> and \<^verbatim>\<open>INT_MAX\<close> of
  \<^verbatim>\<open>limits.h\<close>, as the upper ends of the spec's 8-bit, 16-bit and 32-bit signed tiers.
\<close>

definition USHRT_MAX :: "16 word" where
  "USHRT_MAX = 65535"

definition SCHAR_MAX :: int where
  "SCHAR_MAX = 127"

definition SHRT_MAX :: int where
  "SHRT_MAX = 32767"

definition INT_MAX :: int where
  "INT_MAX = 2147483647"

definition LONG_MAX :: "'a::len word" where
  "LONG_MAX = word_of_int (2 ^ (LENGTH('a) - 1) - 1)"

subsection \<open>The conversions of fprintf\<close>

definition digit_char :: "nat \<Rightarrow> char" where
  "digit_char d = ''0123456789ABCDEF'' ! d"

text \<open>\<^verbatim>\<open>%X\<close>: upper-case hexadecimal, as many digits as the value needs.\<close>

function hexX :: "nat \<Rightarrow> string" where
  "hexX n = (if n < 16 then [digit_char n] else hexX (n div 16) @ [digit_char (n mod 16)])"
  by pat_completeness auto
termination
  by (relation "measure id") auto

text \<open>\<^verbatim>\<open>%d\<close>: decimal, a minus sign before a negative value.\<close>

function decimal_nat :: "nat \<Rightarrow> string" where
  "decimal_nat n =
     (if n < 10 then [digit_char n] else decimal_nat (n div 10) @ [digit_char (n mod 10)])"
  by pat_completeness auto
termination
  by (relation "measure id") auto

definition decimal :: "int \<Rightarrow> string" where
  "decimal i = (if i < 0 then CHR ''-'' # decimal_nat (nat (- i)) else decimal_nat (nat i))"

datatype arg = Num int | Str string

definition arg_num :: "arg list \<Rightarrow> int" where
  "arg_num args = (case args of Num n # _ \<Rightarrow> n | _ \<Rightarrow> 0)"

definition arg_str :: "arg list \<Rightarrow> string" where
  "arg_str args = (case args of Str s # _ \<Rightarrow> cstr s | _ \<Rightarrow> [])"

text \<open>
  The text a format produces. Only the conversions the two programs use are read:
  \<^verbatim>\<open>%hhX\<close> (the argument converted to \<^verbatim>\<open>unsigned char\<close>), \<^verbatim>\<open>%hX\<close>
  (\<^verbatim>\<open>unsigned short\<close>), \<^verbatim>\<open>%hhd\<close> (\<^verbatim>\<open>signed char\<close>), \<^verbatim>\<open>%hd\<close>
  (\<^verbatim>\<open>short\<close>), \<^verbatim>\<open>%d\<close>, \<^verbatim>\<open>%ld\<close> and \<^verbatim>\<open>%s\<close>.
\<close>

function sprintf :: "string \<Rightarrow> arg list \<Rightarrow> string" where
  "sprintf fmt args =
     (case fmt of
        [] \<Rightarrow> []
      | c # rest \<Rightarrow>
          if c \<noteq> CHR ''%'' then c # sprintf rest args
          else if take 3 rest = ''hhX''
            then hexX (unat (word_of_int (arg_num args) :: 8 word)) @ sprintf (drop 3 rest) (tl args)
          else if take 2 rest = ''hX''
            then hexX (unat (word_of_int (arg_num args) :: 16 word)) @ sprintf (drop 2 rest) (tl args)
          else if take 3 rest = ''hhd''
            then decimal (sint (word_of_int (arg_num args) :: 8 word)) @ sprintf (drop 3 rest) (tl args)
          else if take 2 rest = ''hd''
            then decimal (sint (word_of_int (arg_num args) :: 16 word)) @ sprintf (drop 2 rest) (tl args)
          else if take 2 rest = ''ld''
            then decimal (arg_num args) @ sprintf (drop 2 rest) (tl args)
          else if take 1 rest = ''d''
            then decimal (arg_num args) @ sprintf (drop 1 rest) (tl args)
          else if take 1 rest = ''s''
            then arg_str args @ sprintf (drop 1 rest) (tl args)
          else c # sprintf rest args)"
  by pat_completeness auto
termination
  by (relation "measure (\<lambda>(fmt, args). length fmt)") auto

declare hexX.simps [simp del] decimal_nat.simps [simp del] sprintf.simps [simp del]

subsection \<open>The world: one input stream, output files, the heap\<close>

text \<open>
  Every library call that can fail takes its outcome from \<open>faults\<close>: the head of the
  list says whether the next such call fails, and an empty list means that every further
  call succeeds. \<open>trace\<close> records the calls in order, each with its outcome. The input
  file is the one stream the program opens for reading: \<open>pending\<close> are the bytes not yet
  delivered, \<open>broken\<close> says that the device fails (instead of reaching the end of the
  file) once they are delivered, and \<open>eof_ind\<close> and \<open>err_ind\<close> are the stream's two
  indicators. \<open>crashed\<close> is set by a stdio call on a null \<^verbatim>\<open>FILE *\<close>, which is
  undefined behaviour; a crashed process performs no further output call.
\<close>

datatype call =
    Fopen string bool
  | Fwrite string string bool
  | Fflush string bool
  | Fclose string bool
  | Malloc nat bool
  | Stderr string

record world =
  faults :: "bool list"
  trace :: "call list"
  crashed :: bool
  pending :: "8 word list"
  broken :: bool
  eof_ind :: bool
  err_ind :: bool

definition next_ok :: "world \<Rightarrow> bool" where
  "next_ok w = (case faults w of [] \<Rightarrow> True | b # _ \<Rightarrow> \<not> b)"

definition record_call :: "call \<Rightarrow> world \<Rightarrow> world" where
  "record_call c w = w\<lparr>faults := tl (faults w), trace := trace w @ [c]\<rparr>"

definition malloc :: "nat \<Rightarrow> world \<Rightarrow> bool \<times> world" where
  "malloc n w =
     (if crashed w then (False, w) else (next_ok w, record_call (Malloc n (next_ok w)) w))"

definition fopen :: "string \<Rightarrow> world \<Rightarrow> string option \<times> world" where
  "fopen path w =
     (if crashed w then (None, w)
      else ((if next_ok w then Some (cstr path) else None),
            record_call (Fopen (cstr path) (next_ok w)) w))"

definition fwrite_text :: "string \<Rightarrow> string option \<Rightarrow> world \<Rightarrow> int \<times> world" where
  "fwrite_text s file w =
     (if crashed w then (- 1, w)
      else case file of
        None \<Rightarrow> (- 1, w\<lparr>crashed := True\<rparr>)
      | Some f \<Rightarrow> ((if next_ok w then int (length s) else - 1),
                   record_call (Fwrite f s (next_ok w)) w))"

definition fputs :: "string \<Rightarrow> string option \<Rightarrow> world \<Rightarrow> int \<times> world" where
  "fputs s file w = fwrite_text (cstr s) file w"

definition fprintf :: "string option \<Rightarrow> string \<Rightarrow> arg list \<Rightarrow> world \<Rightarrow> int \<times> world" where
  "fprintf file fmt args w = fwrite_text (sprintf fmt args) file w"

definition fflush :: "string option \<Rightarrow> world \<Rightarrow> int \<times> world" where
  "fflush file w =
     (if crashed w then (- 1, w)
      else case file of
        None \<Rightarrow> (- 1, w\<lparr>crashed := True\<rparr>)
      | Some f \<Rightarrow> ((if next_ok w then 0 else - 1), record_call (Fflush f (next_ok w)) w))"

definition fclose :: "string option \<Rightarrow> world \<Rightarrow> int \<times> world" where
  "fclose file w =
     (if crashed w then (- 1, w)
      else case file of
        None \<Rightarrow> (- 1, w\<lparr>crashed := True\<rparr>)
      | Some f \<Rightarrow> ((if next_ok w then 0 else - 1), record_call (Fclose f (next_ok w)) w))"

text \<open>A message on the standard error stream; the programs ignore its outcome.\<close>

definition fputs_stderr :: "string \<Rightarrow> world \<Rightarrow> world" where
  "fputs_stderr s w = (if crashed w then w else w\<lparr>trace := trace w @ [Stderr (cstr s)]\<rparr>)"

text \<open>
  \<^verbatim>\<open>fread\<close> of up to \<open>n\<close> bytes: it delivers fewer than \<open>n\<close> only at the end of
  the file or on an error, and then sets the matching indicator. Both indicators are
  sticky.
\<close>

definition fread :: "nat \<Rightarrow> world \<Rightarrow> 8 word list \<times> world" where
  "fread n w =
     (take n (pending w),
      w\<lparr>pending := drop n (pending w),
        eof_ind := eof_ind w \<or> (length (pending w) < n \<and> \<not> broken w),
        err_ind := err_ind w \<or> (length (pending w) < n \<and> broken w)\<rparr>)"

definition feof :: "world \<Rightarrow> bool" where
  "feof w = eof_ind w"

definition ferror :: "world \<Rightarrow> bool" where
  "ferror w = err_ind w"

text \<open>The text an output file holds: what the successful writes to it delivered.\<close>

fun written :: "string \<Rightarrow> call list \<Rightarrow> string" where
  "written f [] = []"
| "written f (Fwrite g s ok # cs) = (if g = f \<and> ok then s @ written f cs else written f cs)"
| "written f (c # cs) = written f cs"

section \<open>The streaming encoder of bin2c\<close>

text \<open>
  \<^verbatim>\<open>MAIN_CHUNKSIZE\<close> is 16384 on the Intel targets the source recognises and 4096
  elsewhere: \<open>intel\<close> says which. \<open>c99\<close> says whether the program was compiled as C99
  or later (the source selects its formats, and the 8-bit tier of the size literal, on
  \<^verbatim>\<open>__STDC_VERSION__\<close>).
\<close>

definition MAIN_CHUNKSIZE :: "bool \<Rightarrow> nat" where
  "MAIN_CHUNKSIZE intel = (if intel then 4096 * 4 else 512 * 8)"

text \<open>
  The inner loop, \<^verbatim>\<open>while ( count > 0 )\<close> over the bytes of the chunk just read
  (lines 783 to 808). The state is \<open>(success, format, length, world)\<close>. The loop does
  not test \<open>success\<close>: it runs over the whole chunk.
\<close>

fun main_runbin2c_bytes ::
  "bool \<Rightarrow> string option \<Rightarrow> 8 word list \<Rightarrow> bool \<times> string \<times> 'a::len word \<times> world
     \<Rightarrow> bool \<times> string \<times> 'a word \<times> world" where
  "main_runbin2c_bytes c99 outfile [] st = st"
| "main_runbin2c_bytes c99 outfile (d # data) (success, format, len, w) =
     (let (error, w1) = fprintf outfile format [Num (uint d)] w;
          success1 = (success \<and> error \<ge> 0);
          success2 = (success1 \<and> len <s LONG_MAX);
          len2 = len + 1;
          format2 = (if c99 then '', 0x%hhXu'' else '', 0x%hXu'')
      in main_runbin2c_bytes c99 outfile data (success2, format2, len2, w1))"

lemma fwrite_text_stream [simp]:
  "pending (snd (fwrite_text s file w)) = pending w"
  "broken (snd (fwrite_text s file w)) = broken w"
  "eof_ind (snd (fwrite_text s file w)) = eof_ind w"
  "err_ind (snd (fwrite_text s file w)) = err_ind w"
  by (simp_all add: fwrite_text_def record_call_def split: option.splits)

lemma main_runbin2c_bytes_stream:
  "pending (snd (snd (snd (main_runbin2c_bytes c99 outfile data st)))) = pending (snd (snd (snd st)))
   \<and> broken (snd (snd (snd (main_runbin2c_bytes c99 outfile data st)))) = broken (snd (snd (snd st)))
   \<and> eof_ind (snd (snd (snd (main_runbin2c_bytes c99 outfile data st)))) = eof_ind (snd (snd (snd st)))
   \<and> err_ind (snd (snd (snd (main_runbin2c_bytes c99 outfile data st)))) = err_ind (snd (snd (snd st)))"
proof (induction data arbitrary: st)
  case Nil
  show ?case by simp
next
  case (Cons d data)
  obtain success format len w where st: "st = (success, format, len, w)"
    by (cases st) auto
  show ?case
    unfolding st
    by (simp add: Cons.IH fprintf_def split_beta Let_def)
qed

text \<open>
  The outer loop, \<^verbatim>\<open>while ( success )\<close> (lines 761 to 817): read a chunk, fail on
  a read error that delivered nothing, encode the chunk, leave at the end of the file.
\<close>

function main_runbin2c_chunks ::
  "bool \<Rightarrow> bool \<Rightarrow> string option \<Rightarrow> bool \<times> string \<times> 'a::len word \<times> world
     \<Rightarrow> bool \<times> string \<times> 'a word \<times> world" where
  "main_runbin2c_chunks intel c99 outfile (success, format, len, w) =
     (if \<not> success then (success, format, len, w)
      else
        let (buffer, w1) = fread (MAIN_CHUNKSIZE intel) w;
            success1 = (if length buffer < 1 \<and> ferror w1 then False else success);
            st2 = (if success1
                   then main_runbin2c_bytes c99 outfile buffer (success1, format, len, w1)
                   else (success1, format, len, w1))
        in if feof (snd (snd (snd st2))) then st2
           else main_runbin2c_chunks intel c99 outfile st2)"
  by pat_completeness auto

lemma MAIN_CHUNKSIZE_pos: "0 < MAIN_CHUNKSIZE intel"
  by (simp add: MAIN_CHUNKSIZE_def)

definition chunks_measure :: "bool \<times> string \<times> 'a::len word \<times> world \<Rightarrow> nat" where
  "chunks_measure st =
     (case st of (success, format, len, w) \<Rightarrow>
        if \<not> success then 0 else 1 + length (pending w))"

lemma chunks_measure_bytes:
  "chunks_measure (main_runbin2c_bytes c99 outfile data (success, format, len, w))
     \<le> 1 + length (pending w)"
  using main_runbin2c_bytes_stream [of c99 outfile data "(success, format, len, w)"]
  by (cases "main_runbin2c_bytes c99 outfile data (success, format, len, w)")
     (simp add: chunks_measure_def)

lemma main_runbin2c_chunks_decreases:
  assumes "success"
    and "\<not> feof (snd (snd (snd st2)))"
    and "st2 =
      (if (if length (fst (fread (MAIN_CHUNKSIZE intel) w)) < 1
              \<and> ferror (snd (fread (MAIN_CHUNKSIZE intel) w)) then False else success)
       then main_runbin2c_bytes c99 outfile (fst (fread (MAIN_CHUNKSIZE intel) w))
              (True, format, len, snd (fread (MAIN_CHUNKSIZE intel) w))
       else (False, format, len, snd (fread (MAIN_CHUNKSIZE intel) w)))"
  shows "chunks_measure st2 < chunks_measure (success, format, (len :: 'a::len word), w)"
proof (cases "length (fst (fread (MAIN_CHUNKSIZE intel) w)) < 1
                \<and> ferror (snd (fread (MAIN_CHUNKSIZE intel) w))")
  case True
  with assms show ?thesis by (simp add: chunks_measure_def)
next
  case False
  let ?n = "MAIN_CHUNKSIZE intel"
  let ?w1 = "snd (fread ?n w)"
  from False assms
  have st2: "st2 = main_runbin2c_bytes c99 outfile (fst (fread ?n w)) (True, format, len, ?w1)"
    by auto
  have le: "chunks_measure st2 \<le> 1 + length (pending ?w1)"
    unfolding st2 by (rule chunks_measure_bytes)
  have "eof_ind (snd (snd (snd st2))) = eof_ind ?w1"
    unfolding st2
    using main_runbin2c_bytes_stream
      [of c99 outfile "fst (fread ?n w)" "(True, format, len, ?w1)"]
    by simp
  with assms(2) have noeof: "\<not> eof_ind ?w1"
    by (simp add: feof_def)
  have "length (pending ?w1) < length (pending w)"
    using False noeof MAIN_CHUNKSIZE_pos [of intel]
    by (auto simp: fread_def ferror_def)
  with le assms(1) show ?thesis
    by (simp add: chunks_measure_def)
qed

termination main_runbin2c_chunks
  apply (relation "measure (\<lambda>(intel, c99, outfile, st). chunks_measure st)")
   apply simp
  subgoal for intel c99 outfile success format len w x buffer w1 success1 st2
    using main_runbin2c_chunks_decreases [of success st2 intel w c99 outfile format len]
    by (cases "fread (MAIN_CHUNKSIZE intel) w") auto
  done

declare main_runbin2c_chunks.simps [simp del]

text \<open>
  The encoder block of \<^verbatim>\<open>main_runbin2c\<close> (lines 744 to 824): it starts the count
  at zero, allocates the chunk buffer, and \<^emph>\<open>assigns\<close> the outcome of the allocation
  to \<open>success\<close>, whatever the flag held before. It returns the flag, the count and the
  world.
\<close>

definition main_runbin2c_encode ::
  "bool \<Rightarrow> bool \<Rightarrow> string option \<Rightarrow> world \<Rightarrow> bool \<times> 'a::len word \<times> world" where
  "main_runbin2c_encode intel c99 outfile w =
     (let len = 0;
          format = (if c99 then ''0x%hhXu'' else ''0x%hXu'');
          (buffer, w1) = malloc (MAIN_CHUNKSIZE intel) w;
          success = buffer;
          (success2, format2, len2, w2) =
             main_runbin2c_chunks intel c99 outfile (success, format, len, w1)
      in (success2, len2, w2))"

subsection \<open>What the loops do\<close>

text \<open>
  The texts the loop sends for the bytes \<open>ds\<close> when it starts with the format \<open>fmt\<close>,
  the outcomes the next \<open>k\<close> fallible calls take from \<open>faults\<close> (\<open>True\<close>: the call
  succeeds), and the guard \<^verbatim>\<open>length < LONG_MAX\<close> over \<open>k\<close> increments of the count.
\<close>

definition format_next :: "bool \<Rightarrow> string" where
  "format_next c99 = (if c99 then '', 0x%hhXu'' else '', 0x%hXu'')"

fun emitted :: "bool \<Rightarrow> string \<Rightarrow> 8 word list \<Rightarrow> string list" where
  "emitted c99 fmt [] = []"
| "emitted c99 fmt (d # ds) = sprintf fmt [Num (uint d)] # emitted c99 (format_next c99) ds"

fun outcomes :: "nat \<Rightarrow> bool list \<Rightarrow> bool list" where
  "outcomes 0 fs = []"
| "outcomes (Suc k) fs = (case fs of [] \<Rightarrow> True | b # _ \<Rightarrow> \<not> b) # outcomes k (tl fs)"

fun count_ok :: "'a::len word \<Rightarrow> nat \<Rightarrow> bool" where
  "count_ok len 0 = True"
| "count_ok len (Suc k) = (len <s LONG_MAX \<and> count_ok (len + 1) k)"

lemma main_runbin2c_bytes_eq:
  "\<not> crashed w \<Longrightarrow>
   main_runbin2c_bytes c99 (Some f) ds (success, fmt, len, w) =
     (success \<and> list_all (\<lambda>b. b) (outcomes (length ds) (faults w)) \<and> count_ok len (length ds),
      (if ds = [] then fmt else format_next c99),
      len + of_nat (length ds),
      w\<lparr>faults := drop (length ds) (faults w),
        trace := trace w @ map2 (Fwrite f) (emitted c99 fmt ds) (outcomes (length ds) (faults w))\<rparr>)"
proof (induction ds arbitrary: success fmt len w)
  case Nil
  then show ?case by simp
next
  case (Cons d ds)
  let ?w1 = "record_call (Fwrite f (sprintf fmt [Num (uint d)]) (next_ok w)) w"
  have c: "\<not> crashed ?w1" using Cons.prems by (simp add: record_call_def)
  have step: "main_runbin2c_bytes c99 (Some f) (d # ds) (success, fmt, len, w) =
     main_runbin2c_bytes c99 (Some f) ds
       (success \<and> next_ok w \<and> len <s LONG_MAX, format_next c99, len + 1, ?w1)"
    using Cons.prems
    by (simp add: fprintf_def fwrite_text_def format_next_def)
  have f1: "faults ?w1 = tl (faults w)" and t1: "trace ?w1 = trace w @ [Fwrite f (sprintf fmt [Num (uint d)]) (next_ok w)]"
    by (simp_all add: record_call_def)
  have o: "outcomes (Suc (length ds)) (faults w) = next_ok w # outcomes (length ds) (tl (faults w))"
    by (simp add: next_ok_def)
  show ?case
    unfolding step Cons.IH [OF c] f1 t1
    by (simp add: o drop_Suc record_call_def add.assoc del: outcomes.simps) blast
qed


lemma length_emitted [simp]: "length (emitted c99 fmt ds) = length ds"
  by (induction ds arbitrary: fmt) auto

lemma length_outcomes [simp]: "length (outcomes k fs) = k"
  by (induction k arbitrary: fs) auto

lemma outcomes_add: "outcomes (a + b) fs = outcomes a fs @ outcomes b (drop a fs)"
  by (induction a arbitrary: fs) (auto simp: drop_Suc)

lemma count_ok_add: "count_ok len (a + b) = (count_ok len a \<and> count_ok (len + of_nat a) b)"
  by (induction a arbitrary: len) (auto simp: add.assoc)

lemma emitted_append:
  "emitted c99 fmt (xs @ ys) =
     emitted c99 fmt xs @ emitted c99 (if xs = [] then fmt else format_next c99) ys"
  by (induction xs arbitrary: fmt) auto

lemma main_runbin2c_chunks_failed [simp]:
  "main_runbin2c_chunks intel c99 outfile (False, fmt, len, w) = (False, fmt, len, w)"
  by (simp add: main_runbin2c_chunks.simps)

definition after_fread :: "nat \<Rightarrow> world \<Rightarrow> world" where
  "after_fread n w = snd (fread n w)"

definition after_bytes ::
  "bool \<Rightarrow> string \<Rightarrow> nat \<Rightarrow> string \<Rightarrow> 'a::len word \<Rightarrow> world
     \<Rightarrow> bool \<times> string \<times> 'a word \<times> world" where
  "after_bytes c99 f n fmt len w =
     (let k = min (length (pending w)) n in
        (list_all (\<lambda>b. b) (outcomes k (faults w)) \<and> count_ok len k,
         (if k = 0 then fmt else format_next c99),
         len + of_nat k,
         (after_fread n w)\<lparr>faults := drop k (faults w),
           trace := trace w @ map2 (Fwrite f) (emitted c99 fmt (take n (pending w)))
                                (outcomes k (faults w))\<rparr>))"

lemma main_runbin2c_chunks_step:
  assumes "\<not> crashed w"
  shows "main_runbin2c_chunks intel c99 (Some f) (True, fmt, len, w) =
     (if pending w = [] \<and> err_ind (after_fread (MAIN_CHUNKSIZE intel) w)
      then (False, fmt, len, after_fread (MAIN_CHUNKSIZE intel) w)
      else if eof_ind (after_fread (MAIN_CHUNKSIZE intel) w)
        then after_bytes c99 f (MAIN_CHUNKSIZE intel) fmt len w
        else main_runbin2c_chunks intel c99 (Some f)
               (after_bytes c99 f (MAIN_CHUNKSIZE intel) fmt len w))"
proof -
  let ?n = "MAIN_CHUNKSIZE intel"
  have c: "\<not> crashed (snd (fread ?n w))"
    using assms by (simp add: fread_def)
  have k0: "(min (length (pending w)) ?n = 0) = (pending w = [])"
    using MAIN_CHUNKSIZE_pos [of intel] by (cases "pending w") (auto simp: min_def)
  have b: "main_runbin2c_bytes c99 (Some f) (take ?n (pending w)) (True, fmt, len, snd (fread ?n w))
      = after_bytes c99 f ?n fmt len w"
    unfolding main_runbin2c_bytes_eq [OF c]
    using MAIN_CHUNKSIZE_pos [of intel]
    by (simp add: after_bytes_def after_fread_def fread_def Let_def k0)
  have e: "eof_ind (snd (snd (snd (after_bytes c99 f ?n fmt len w)))) = eof_ind (after_fread ?n w)"
    by (simp add: after_bytes_def Let_def)
  have buf: "fst (fread ?n w) = take ?n (pending w)"
    by (simp add: fread_def)
  have empty: "(length (fst (fread ?n w)) < 1) = (pending w = [])"
    by (simp add: fread_def k0)
  then have empty': "(fst (fread ?n w) = []) = (pending w = [])"
    by simp
  have unfold: "main_runbin2c_chunks intel c99 (Some f) (True, fmt, len, w) =
     (let st2 = (if \<not> (pending w = [] \<and> ferror (snd (fread ?n w)))
                 then main_runbin2c_bytes c99 (Some f) (fst (fread ?n w))
                        (True, fmt, len, snd (fread ?n w))
                 else (False, fmt, len, snd (fread ?n w)))
      in if feof (snd (snd (snd st2))) then st2
         else main_runbin2c_chunks intel c99 (Some f) st2)"
    by (subst main_runbin2c_chunks.simps) (simp add: split_beta Let_def empty')
  show ?thesis
  proof (cases "pending w = [] \<and> err_ind (after_fread ?n w)")
    case True
    then have "(pending w = [] \<and> ferror (snd (fread ?n w))) = True"
      by (simp add: ferror_def after_fread_def)
    then show ?thesis
      unfolding unfold using True by (simp add: Let_def after_fread_def)
  next
    case False
    then have cond: "(pending w = [] \<and> ferror (snd (fread ?n w))) = False"
      by (simp add: ferror_def after_fread_def)
    have cond': "(pending w = [] \<and> err_ind (after_fread ?n w)) = False"
      using False by simp
    show ?thesis
      unfolding unfold cond cond'
      by (simp add: feof_def Let_def buf b e)
  qed
qed


lemma after_fread_simps [simp]:
  "pending (after_fread n w) = drop n (pending w)"
  "faults (after_fread n w) = faults w"
  "trace (after_fread n w) = trace w"
  "crashed (after_fread n w) = crashed w"
  "broken (after_fread n w) = broken w"
  "eof_ind (after_fread n w) = (eof_ind w \<or> (length (pending w) < n \<and> \<not> broken w))"
  "err_ind (after_fread n w) = (err_ind w \<or> (length (pending w) < n \<and> broken w))"
  by (simp_all add: after_fread_def fread_def)

text \<open>What a run of the outer loop that consumed \<open>k\<close> bytes leaves behind.\<close>

definition chunks_post ::
  "nat \<Rightarrow> bool \<Rightarrow> string \<Rightarrow> string \<Rightarrow> 'a::len word \<Rightarrow> world \<Rightarrow> nat
     \<Rightarrow> bool \<times> string \<times> 'a word \<times> world \<Rightarrow> bool" where
  "chunks_post n c99 f fmt len w k st =
     (case st of (s', fmt', len', w') \<Rightarrow>
        k \<le> length (pending w)
        \<and> pending w' = drop k (pending w)
        \<and> faults w' = drop k (faults w)
        \<and> trace w' = trace w @ map2 (Fwrite f) (emitted c99 fmt (take k (pending w)))
                                   (outcomes k (faults w))
        \<and> len' = len + of_nat k
        \<and> \<not> crashed w'
        \<and> broken w' = broken w
        \<and> (s' \<longrightarrow> list_all (\<lambda>b. b) (outcomes k (faults w)) \<and> count_ok len k)
        \<and> (\<forall>i<k. \<not> outcomes k (faults w) ! i \<longrightarrow> k \<le> (i div n + 1) * n))"

lemma chunks_post_after_bytes:
  assumes "\<not> crashed w" and "0 < n"
  shows "chunks_post n c99 f fmt len w (min (length (pending w)) n) (after_bytes c99 f n fmt len w)"
  using assms
  by (auto simp: chunks_post_def after_bytes_def Let_def min_def)

lemma chunks_post_compose:
  assumes n: "0 < n" and c: "c = min (length (pending w)) n"
    and s2: "list_all (\<lambda>b. b) (outcomes c (faults w))" "count_ok len c"
    and post: "chunks_post n c99 f (if c = 0 then fmt else format_next c99) (len + of_nat c)
                 ((after_fread n w)\<lparr>faults := drop c (faults w),
                    trace := trace w @ map2 (Fwrite f) (emitted c99 fmt (take n (pending w)))
                                         (outcomes c (faults w))\<rparr>) k2 st"
  shows "chunks_post n c99 f fmt len w (c + k2) st"
proof -
  obtain s' fmt' len' w' where st: "st = (s', fmt', len', w')"
    by (cases st) auto
  let ?fmt2 = "if c = 0 then fmt else format_next c99"
  from post have k2: "k2 \<le> length (pending w) - n"
    and p': "pending w' = drop k2 (drop n (pending w))"
    and f': "faults w' = drop k2 (drop c (faults w))"
    and t': "trace w' = (trace w @ map2 (Fwrite f) (emitted c99 fmt (take n (pending w)))
                                         (outcomes c (faults w)))
               @ map2 (Fwrite f) (emitted c99 ?fmt2 (take k2 (drop n (pending w))))
                                   (outcomes k2 (drop c (faults w)))"
    and l': "len' = (len + of_nat c) + of_nat k2"
    and c': "\<not> crashed w'"
    and b': "broken w' = broken w"
    and s': "s' \<longrightarrow> list_all (\<lambda>b. b) (outcomes k2 (drop c (faults w))) \<and> count_ok (len + of_nat c) k2"
    and ih: "\<forall>j<k2. \<not> outcomes k2 (drop c (faults w)) ! j \<longrightarrow> k2 \<le> (j div n + 1) * n"
    by (simp_all add: chunks_post_def st)
  have cn: "k2 = 0 \<or> c = n"
    using k2 c by (auto simp: min_def)
  have tn: "take n (pending w) = take c (pending w)"
    using c by (auto simp: min_def)
  have dn: "drop k2 (drop n (pending w)) = drop (c + k2) (pending w)"
    using cn k2 c by (auto simp: min_def add.commute)
  have tk: "take (c + k2) (pending w) = take c (pending w) @ take k2 (drop n (pending w))"
    using cn by (auto simp: take_add)
  have ne: "(take c (pending w) = []) = (c = 0)"
    using c n by (cases "pending w") (auto simp: min_def)
  have bound: "c + k2 \<le> (i div n + 1) * n"
    if i: "i < c + k2" and bad: "\<not> outcomes (c + k2) (faults w) ! i" for i
  proof (cases "i < c")
    case True
    with s2(1) bad show ?thesis
      by (simp add: outcomes_add nth_append list_all_length)
  next
    case False
    then have j: "i - c < k2" using i by simp
    then have cn': "c = n" using cn by auto
    from bad False have "\<not> outcomes k2 (drop c (faults w)) ! (i - c)"
      by (simp add: outcomes_add nth_append)
    with ih j have "k2 \<le> ((i - n) div n + 1) * n" unfolding cn' by blast
    moreover have "i div n = Suc ((i - n) div n)"
      using False n cn' by (simp add: le_div_geq)
    ultimately show ?thesis using cn' by simp
  qed
  have le: "c + k2 \<le> length (pending w)"
    using k2 c cn by (auto simp: min_def)
  have em: "emitted c99 fmt (take (c + k2) (pending w)) =
            emitted c99 fmt (take c (pending w)) @ emitted c99 ?fmt2 (take k2 (drop n (pending w)))"
    unfolding tk emitted_append ne by simp
  have t: "trace w' = trace w @ map2 (Fwrite f) (emitted c99 fmt (take (c + k2) (pending w)))
                                   (outcomes (c + k2) (faults w))"
  proof -
    have "length (emitted c99 fmt (take c (pending w))) = length (outcomes c (faults w))"
      using c by (simp add: min_def)
    then show ?thesis
      unfolding t' em tn outcomes_add by simp
  qed
  have f: "faults w' = drop (c + k2) (faults w)"
    unfolding f' by (simp add: add.commute)
  have l: "len' = len + of_nat (c + k2)"
    unfolding l' by (simp add: add.assoc)
  have s: "s' \<longrightarrow> list_all (\<lambda>b. b) (outcomes (c + k2) (faults w)) \<and> count_ok len (c + k2)"
    using s' s2 by (simp add: outcomes_add count_ok_add)
  show ?thesis
    unfolding st chunks_post_def
    using le p' dn f t l c' b' s bound by simp
qed

lemma main_runbin2c_chunks_post:
  assumes "\<not> crashed w"
  shows "\<exists>k. chunks_post (MAIN_CHUNKSIZE intel) c99 f fmt len w k
               (main_runbin2c_chunks intel c99 (Some f) (True, fmt, len, w))"
  using assms
proof (induction "length (pending w)" arbitrary: w fmt len rule: less_induct)
  case less
  let ?n = "MAIN_CHUNKSIZE intel"
  let ?c = "min (length (pending w)) ?n"
  let ?st2 = "after_bytes c99 f ?n fmt len w"
  have n: "0 < ?n" by (rule MAIN_CHUNKSIZE_pos)
  note step = main_runbin2c_chunks_step [OF less.prems, of intel c99 f fmt len]
  have bytes: "chunks_post ?n c99 f fmt len w ?c ?st2"
    by (rule chunks_post_after_bytes [OF less.prems n])
  show ?case
  proof (cases "pending w = [] \<and> err_ind (after_fread ?n w)")
    case True
    have "chunks_post ?n c99 f fmt len w 0
                 (main_runbin2c_chunks intel c99 (Some f) (True, fmt, len, w))"
      unfolding step if_P [OF True] using less.prems True by (simp add: chunks_post_def)
    then show ?thesis ..
  next
    case False
    note step' = step [unfolded if_not_P [OF False]]
    show ?thesis
    proof (cases "eof_ind (after_fread ?n w)")
      case True
      have "main_runbin2c_chunks intel c99 (Some f) (True, fmt, len, w) = ?st2"
        unfolding step' if_P [OF True] ..
      with bytes show ?thesis by auto
    next
      case noeof: False
      note step'' = step' [unfolded if_not_P [OF noeof]]
      show ?thesis
      proof (cases "fst ?st2")
        case False
        then have "main_runbin2c_chunks intel c99 (Some f) ?st2 = ?st2"
          by (cases ?st2) simp
        then have "main_runbin2c_chunks intel c99 (Some f) (True, fmt, len, w) = ?st2"
          unfolding step'' .
        with bytes show ?thesis by auto
      next
        case s2: True
        let ?w2 = "(after_fread ?n w)\<lparr>faults := drop ?c (faults w),
                    trace := trace w @ map2 (Fwrite f) (emitted c99 fmt (take ?n (pending w)))
                                         (outcomes ?c (faults w))\<rparr>"
        let ?fmt2 = "if ?c = 0 then fmt else format_next c99"
        have st2: "?st2 = (True, ?fmt2, len + of_nat ?c, ?w2)"
          using s2 by (simp add: after_bytes_def Let_def)
        have ok: "list_all (\<lambda>b. b) (outcomes ?c (faults w))" "count_ok len ?c"
          using s2 by (simp_all add: after_bytes_def Let_def)
        have ne: "pending w \<noteq> []"
          using \<open>\<not> (pending w = [] \<and> err_ind (after_fread ?n w))\<close> noeof n by auto
        then have shorter: "length (pending ?w2) < length (pending w)"
          using n by simp
        have c2: "\<not> crashed ?w2" using less.prems by simp
        from less.hyps [OF shorter c2, of ?fmt2 "len + of_nat ?c"]
        obtain k2 where k2: "chunks_post ?n c99 f ?fmt2 (len + of_nat ?c) ?w2 k2
               (main_runbin2c_chunks intel c99 (Some f) (True, ?fmt2, len + of_nat ?c, ?w2))"
          by blast
        have eq: "main_runbin2c_chunks intel c99 (Some f) (True, fmt, len, w) =
                  main_runbin2c_chunks intel c99 (Some f) (True, ?fmt2, len + of_nat ?c, ?w2)"
          unfolding step'' st2 ..
        have "chunks_post ?n c99 f fmt len w (?c + k2)
                 (main_runbin2c_chunks intel c99 (Some f) (True, fmt, len, w))"
          unfolding eq
          by (rule chunks_post_compose [OF n refl ok k2])
        then show ?thesis ..
      qed
    qed
  qed
qed


lemma main_runbin2c_chunks_success:
  assumes "\<not> crashed w" and "\<not> eof_ind w" and "err_ind w \<longrightarrow> broken w"
  shows "fst (main_runbin2c_chunks intel c99 (Some f) (True, fmt, len, w)) =
           (\<not> broken w \<and> list_all (\<lambda>b. b) (outcomes (length (pending w)) (faults w))
            \<and> count_ok len (length (pending w)))"
  using assms
proof (induction "length (pending w)" arbitrary: w fmt len rule: less_induct)
  case less
  let ?n = "MAIN_CHUNKSIZE intel"
  let ?c = "min (length (pending w)) ?n"
  let ?st2 = "after_bytes c99 f ?n fmt len w"
  have n: "0 < ?n" by (rule MAIN_CHUNKSIZE_pos)
  note step = main_runbin2c_chunks_step [OF less.prems(1), of intel c99 f fmt len]
  have split: "length (pending w) = ?c + length (drop ?n (pending w))"
    by (simp add: min_def)
  have fst2: "fst ?st2 = (list_all (\<lambda>b. b) (outcomes ?c (faults w)) \<and> count_ok len ?c)"
    by (simp add: after_bytes_def Let_def)
  have rhs: "(list_all (\<lambda>b. b) (outcomes (length (pending w)) (faults w))
              \<and> count_ok len (length (pending w))) =
             (fst ?st2 \<and> list_all (\<lambda>b. b) (outcomes (length (drop ?n (pending w))) (drop ?c (faults w)))
              \<and> count_ok (len + of_nat ?c) (length (drop ?n (pending w))))"
    by (subst split, subst (2) split) (auto simp only: outcomes_add count_ok_add fst2 list_all_append)
  show ?case
  proof (cases "pending w = [] \<and> err_ind (after_fread ?n w)")
    case True
    then have "broken w" using less.prems by auto
    then show ?thesis
      unfolding step if_P [OF True] by simp
  next
    case False
    note step' = step [unfolded if_not_P [OF False]]
    show ?thesis
    proof (cases "eof_ind (after_fread ?n w)")
      case True
      then have "length (pending w) < ?n" "\<not> broken w"
        using less.prems by auto
      then show ?thesis
        unfolding step' if_P [OF True] rhs by simp
    next
      case noeof: False
      note step'' = step' [unfolded if_not_P [OF noeof]]
      show ?thesis
      proof (cases "fst ?st2")
        case False
        then have "main_runbin2c_chunks intel c99 (Some f) ?st2 = ?st2"
          by (cases ?st2) simp
        then show ?thesis
          unfolding step'' rhs using False by simp
      next
        case s2: True
        let ?w2 = "(after_fread ?n w)\<lparr>faults := drop ?c (faults w),
                    trace := trace w @ map2 (Fwrite f) (emitted c99 fmt (take ?n (pending w)))
                                         (outcomes ?c (faults w))\<rparr>"
        let ?fmt2 = "if ?c = 0 then fmt else format_next c99"
        have st2: "?st2 = (True, ?fmt2, len + of_nat ?c, ?w2)"
          using s2 by (simp add: after_bytes_def Let_def)
        have ne: "pending w \<noteq> []"
          using \<open>\<not> (pending w = [] \<and> err_ind (after_fread ?n w))\<close> noeof n by auto
        then have shorter: "length (pending ?w2) < length (pending w)"
          using n by simp
        have c2: "\<not> crashed ?w2" using less.prems by simp
        have e2: "\<not> eof_ind ?w2" using noeof by simp
        have r2: "err_ind ?w2 \<longrightarrow> broken ?w2" using less.prems by auto
        note ih = less.hyps [OF shorter c2 e2 r2, of ?fmt2 "len + of_nat ?c"]
        show ?thesis
          unfolding step'' st2 ih rhs using s2 by simp
      qed
    qed
  qed
qed

subsection \<open>The count and LONG_MAX\<close>

definition long_max :: "'a::len itself \<Rightarrow> nat" where
  "long_max t = 2 ^ (LENGTH('a) - 1) - 1"

lemma sint_of_nat_small:
  assumes "m \<le> long_max TYPE('a::len)"
  shows "sint (of_nat m :: 'a word) = int m"
proof -
  have "0 < (2::nat) ^ (LENGTH('a) - 1)" by simp
  with assms have "m < 2 ^ (LENGTH('a) - 1)"
    unfolding long_max_def by linarith
  then have "int m < 2 ^ (LENGTH('a) - 1)"
    by (metis of_nat_less_iff of_nat_numeral of_nat_power)
  moreover have "- (2 ^ (LENGTH('a) - 1)) \<le> int m"
    by (rule order_trans [of _ 0]) simp_all
  ultimately have "signed_take_bit (LENGTH('a) - 1) (int m) = int m"
    by (intro signed_take_bit_int_eq_self)
  then show ?thesis
    by (simp add: signed_of_nat)
qed

lemma sint_LONG_MAX: "sint (LONG_MAX :: 'a::len word) = int (long_max TYPE('a))"
proof -
  have eq: "(LONG_MAX :: 'a word) = of_nat (long_max TYPE('a))"
    by (simp add: LONG_MAX_def long_max_def of_nat_diff)
  show ?thesis
    unfolding eq by (rule sint_of_nat_small) simp
qed

lemma less_LONG_MAX:
  assumes "m \<le> long_max TYPE('a::len)"
  shows "((of_nat m :: 'a word) <s LONG_MAX) = (m < long_max TYPE('a))"
  by (simp add: word_sless_alt sint_LONG_MAX sint_of_nat_small [OF assms])

lemma count_ok_of_nat:
  assumes "m \<le> long_max TYPE('a::len)"
  shows "count_ok (of_nat m :: 'a word) k = (k = 0 \<or> m + k \<le> long_max TYPE('a))"
  using assms
proof (induction k arbitrary: m)
  case 0
  show ?case by simp
next
  case (Suc k)
  show ?case
  proof (cases "m < long_max TYPE('a)")
    case True
    then have "Suc m \<le> long_max TYPE('a)" by simp
    from Suc.IH [OF this]
    have "count_ok (of_nat m + 1 :: 'a word) k = (k = 0 \<or> Suc m + k \<le> long_max TYPE('a))"
      by (simp add: add.commute)
    with True show ?thesis
      by (auto simp: less_LONG_MAX [OF Suc.prems])
  next
    case False
    then show ?thesis
      by (simp add: less_LONG_MAX [OF Suc.prems])
  qed
qed

lemma count_ok_zero: "count_ok (0 :: 'a::len word) k = (k \<le> long_max TYPE('a))"
  using count_ok_of_nat [of 0, where 'a = 'a] by auto

subsection \<open>The text of one element\<close>

definition literal :: "8 word \<Rightarrow> string" where
  "literal d =
     ''0x'' @ (if unat d < 16 then [digit_char (unat d)]
               else [digit_char (unat d div 16), digit_char (unat d mod 16)]) @ ''u''"

lemma hexX_byte:
  "n < 256 \<Longrightarrow> hexX n = (if n < 16 then [digit_char n] else [digit_char (n div 16), digit_char (n mod 16)])"
  by (subst hexX.simps, subst hexX.simps) auto

lemma unat_byte: "unat (d :: 8 word) < 256"
  using unsigned_less [of d, where 'a = nat] by simp

lemma unat_uint_16: "unat (word_of_int (uint (d :: 8 word)) :: 16 word) = unat d"
proof -
  have "unat (word_of_int (uint d) :: 16 word) = unat (ucast d :: 16 word)"
    by simp
  also have "\<dots> = unat d"
    using unat_byte [of d] by (simp add: unsigned_ucast_eq take_bit_nat_eq_self)
  finally show ?thesis .
qed

lemma sprintf_plain: "c \<noteq> CHR ''%'' \<Longrightarrow> sprintf (c # fmt) args = c # sprintf fmt args"
  by (subst sprintf.simps) simp

lemma sprintf_Nil: "sprintf [] args = []"
  by (subst sprintf.simps) simp

lemma sprintf_hhX:
  "sprintf (CHR ''%'' # CHR ''h'' # CHR ''h'' # CHR ''X'' # fmt) args =
     hexX (unat (word_of_int (arg_num args) :: 8 word)) @ sprintf fmt (tl args)"
  by (subst sprintf.simps) simp

lemma sprintf_hX:
  "sprintf (CHR ''%'' # CHR ''h'' # CHR ''X'' # fmt) args =
     hexX (unat (word_of_int (arg_num args) :: 16 word)) @ sprintf fmt (tl args)"
  by (subst sprintf.simps) simp

lemma sprintf_hhX_byte: "sprintf ''0x%hhXu'' [Num (uint d)] = literal d"
  by (simp add: sprintf_plain sprintf_hhX sprintf_Nil arg_num_def
          hexX_byte [OF unat_byte] literal_def)

lemma sprintf_hX_byte: "sprintf ''0x%hXu'' [Num (uint d)] = literal d"
  by (simp add: sprintf_plain sprintf_hX sprintf_Nil arg_num_def unat_uint_16
          hexX_byte [OF unat_byte] literal_def del: of_int_uint)

lemma sprintf_first:
  "sprintf (if c99 then ''0x%hhXu'' else ''0x%hXu'') [Num (uint d)] = literal d"
  using sprintf_hhX_byte sprintf_hX_byte by simp

lemma sprintf_next:
  "sprintf (if c99 then '', 0x%hhXu'' else '', 0x%hXu'') [Num (uint d)] = '', '' @ literal d"
  using sprintf_hhX_byte [of d] sprintf_hX_byte [of d] by (simp add: sprintf_plain)

section \<open>The streaming encoder of bin2h\<close>

text \<open>
  \<^verbatim>\<open>bin2h/main.c\<close> has the same two loops (lines 401 to 446) with the pre-C99 format
  only, and without a count: its state is \<open>(success, format, world)\<close>.
\<close>

fun main_runbin2h_bytes ::
  "string option \<Rightarrow> 8 word list \<Rightarrow> bool \<times> string \<times> world \<Rightarrow> bool \<times> string \<times> world" where
  "main_runbin2h_bytes outfile [] st = st"
| "main_runbin2h_bytes outfile (d # data) (success, format, w) =
     (let (error, w1) = fprintf outfile format [Num (uint d)] w;
          success1 = (success \<and> error \<ge> 0);
          format2 = '', 0x%hXu''
      in main_runbin2h_bytes outfile data (success1, format2, w1))"

lemma main_runbin2h_bytes_stream:
  "pending (snd (snd (main_runbin2h_bytes outfile data st))) = pending (snd (snd st))
   \<and> broken (snd (snd (main_runbin2h_bytes outfile data st))) = broken (snd (snd st))
   \<and> eof_ind (snd (snd (main_runbin2h_bytes outfile data st))) = eof_ind (snd (snd st))
   \<and> err_ind (snd (snd (main_runbin2h_bytes outfile data st))) = err_ind (snd (snd st))"
proof (induction data arbitrary: st)
  case Nil
  show ?case by simp
next
  case (Cons d data)
  obtain success format w where st: "st = (success, format, w)"
    by (cases st) auto
  show ?case
    unfolding st
    by (simp add: Cons.IH fprintf_def split_beta Let_def)
qed

function main_runbin2h_chunks ::
  "bool \<Rightarrow> string option \<Rightarrow> bool \<times> string \<times> world \<Rightarrow> bool \<times> string \<times> world" where
  "main_runbin2h_chunks intel outfile (success, format, w) =
     (if \<not> success then (success, format, w)
      else
        let (buffer, w1) = fread (MAIN_CHUNKSIZE intel) w;
            success1 = (if length buffer < 1 \<and> ferror w1 then False else success);
            st2 = (if success1
                   then main_runbin2h_bytes outfile buffer (success1, format, w1)
                   else (success1, format, w1))
        in if feof (snd (snd st2)) then st2
           else main_runbin2h_chunks intel outfile st2)"
  by pat_completeness auto

definition chunks_measure_h :: "bool \<times> string \<times> world \<Rightarrow> nat" where
  "chunks_measure_h st =
     (case st of (success, format, w) \<Rightarrow> if \<not> success then 0 else 1 + length (pending w))"

lemma chunks_measure_h_bytes:
  "chunks_measure_h (main_runbin2h_bytes outfile data (success, format, w))
     \<le> 1 + length (pending w)"
  using main_runbin2h_bytes_stream [of outfile data "(success, format, w)"]
  by (cases "main_runbin2h_bytes outfile data (success, format, w)")
     (simp add: chunks_measure_h_def)

lemma main_runbin2h_chunks_decreases:
  assumes "success"
    and "\<not> feof (snd (snd st2))"
    and "st2 =
      (if (if length (fst (fread (MAIN_CHUNKSIZE intel) w)) < 1
              \<and> ferror (snd (fread (MAIN_CHUNKSIZE intel) w)) then False else success)
       then main_runbin2h_bytes outfile (fst (fread (MAIN_CHUNKSIZE intel) w))
              (True, format, snd (fread (MAIN_CHUNKSIZE intel) w))
       else (False, format, snd (fread (MAIN_CHUNKSIZE intel) w)))"
  shows "chunks_measure_h st2 < chunks_measure_h (success, format, w)"
proof (cases "length (fst (fread (MAIN_CHUNKSIZE intel) w)) < 1
                \<and> ferror (snd (fread (MAIN_CHUNKSIZE intel) w))")
  case True
  with assms show ?thesis by (simp add: chunks_measure_h_def)
next
  case False
  let ?n = "MAIN_CHUNKSIZE intel"
  let ?w1 = "snd (fread ?n w)"
  from False assms
  have st2: "st2 = main_runbin2h_bytes outfile (fst (fread ?n w)) (True, format, ?w1)"
    by auto
  have le: "chunks_measure_h st2 \<le> 1 + length (pending ?w1)"
    unfolding st2 by (rule chunks_measure_h_bytes)
  have "eof_ind (snd (snd st2)) = eof_ind ?w1"
    unfolding st2
    using main_runbin2h_bytes_stream [of outfile "fst (fread ?n w)" "(True, format, ?w1)"]
    by simp
  with assms(2) have noeof: "\<not> eof_ind ?w1"
    by (simp add: feof_def)
  have "length (pending ?w1) < length (pending w)"
    using False noeof MAIN_CHUNKSIZE_pos [of intel]
    by (auto simp: fread_def ferror_def)
  with le assms(1) show ?thesis
    by (simp add: chunks_measure_h_def)
qed

termination main_runbin2h_chunks
  apply (relation "measure (\<lambda>(intel, outfile, st). chunks_measure_h st)")
   apply simp
  subgoal for intel outfile success format w x buffer w1 success1 st2
    using main_runbin2h_chunks_decreases [of success st2 intel w outfile format]
    by (cases "fread (MAIN_CHUNKSIZE intel) w") auto
  done

declare main_runbin2h_chunks.simps [simp del]

text \<open>The encoder block of \<^verbatim>\<open>main_runbin2h\<close> (lines 391 to 453).\<close>

definition main_runbin2h_encode :: "bool \<Rightarrow> string option \<Rightarrow> world \<Rightarrow> bool \<times> world" where
  "main_runbin2h_encode intel outfile w =
     (let format = ''0x%hXu'';
          (buffer, w1) = malloc (MAIN_CHUNKSIZE intel) w;
          success = buffer;
          (success2, format2, w2) = main_runbin2h_chunks intel outfile (success, format, w1)
      in (success2, w2))"

text \<open>
  \<^verbatim>\<open>main_runbin2h\<close> whole (lines 314 to 481): the declaration up to the opening
  brace, the encoder block, the closing brace, the flush, and the message on failure.
  The caller opens \<open>outfile\<close>.
\<close>

definition main_runbin2h ::
  "bool \<Rightarrow> string option \<Rightarrow> string \<Rightarrow> string option \<Rightarrow> string option \<Rightarrow> world
     \<Rightarrow> bool \<times> world" where
  "main_runbin2h intel outfile symbol prefix suffix w =
     (let success = True;
          (error, w) = fputs ''static unsigned char const '' outfile w;
          success = (success \<and> error \<ge> 0);
          (success, w) =
             (case prefix of
                None \<Rightarrow> (success, w)
              | Some p \<Rightarrow> (let (error, w) = fputs p outfile w in (success \<and> error \<ge> 0, w)));
          (error, w) = fputs symbol outfile w;
          success = (success \<and> error \<ge> 0);
          (success, w) =
             (case suffix of
                None \<Rightarrow> (success, w)
              | Some s \<Rightarrow> (let (error, w) = fputs s outfile w in (success \<and> error \<ge> 0, w)));
          (error, w) = fputs ''[] = { '' outfile w;
          success = (success \<and> error \<ge> 0);
          (success, w) = main_runbin2h_encode intel outfile w;
          (success, w) =
             (if success then (let (error, w) = fputs ('' };'' @ [NL]) outfile w in (error \<ge> 0, w))
              else (success, w));
          (success, w) =
             (if success then (let (error, w) = fflush outfile w in (error \<ge> 0, w))
              else (success, w));
          w = (if \<not> success
               then fputs_stderr
                      ''ERROR: failed to create an output header file from the input binary file.'' w
               else w)
      in (success, w))"


subsection \<open>What the loops of bin2h do\<close>

lemma main_runbin2h_bytes_eq:
  "\<not> crashed w \<Longrightarrow>
   main_runbin2h_bytes (Some f) ds (success, fmt, w) =
     (success \<and> list_all (\<lambda>b. b) (outcomes (length ds) (faults w)),
      (if ds = [] then fmt else format_next False),
      w\<lparr>faults := drop (length ds) (faults w),
        trace := trace w @ map2 (Fwrite f) (emitted False fmt ds) (outcomes (length ds) (faults w))\<rparr>)"
proof (induction ds arbitrary: success fmt w)
  case Nil
  then show ?case by simp
next
  case (Cons d ds)
  let ?w1 = "record_call (Fwrite f (sprintf fmt [Num (uint d)]) (next_ok w)) w"
  have c: "\<not> crashed ?w1" using Cons.prems by (simp add: record_call_def)
  have step: "main_runbin2h_bytes (Some f) (d # ds) (success, fmt, w) =
     main_runbin2h_bytes (Some f) ds (success \<and> next_ok w, format_next False, ?w1)"
    using Cons.prems
    by (simp add: fprintf_def fwrite_text_def format_next_def)
  have f1: "faults ?w1 = tl (faults w)"
    and t1: "trace ?w1 = trace w @ [Fwrite f (sprintf fmt [Num (uint d)]) (next_ok w)]"
    by (simp_all add: record_call_def)
  have o: "outcomes (Suc (length ds)) (faults w) = next_ok w # outcomes (length ds) (tl (faults w))"
    by (simp add: next_ok_def)
  show ?case
    unfolding step Cons.IH [OF c] f1 t1
    by (simp add: o drop_Suc record_call_def del: outcomes.simps)
qed

lemma main_runbin2h_chunks_failed [simp]:
  "main_runbin2h_chunks intel outfile (False, fmt, w) = (False, fmt, w)"
  by (simp add: main_runbin2h_chunks.simps)

definition after_bytes_h :: "string \<Rightarrow> nat \<Rightarrow> string \<Rightarrow> world \<Rightarrow> bool \<times> string \<times> world" where
  "after_bytes_h f n fmt w =
     (let k = min (length (pending w)) n in
        (list_all (\<lambda>b. b) (outcomes k (faults w)),
         (if k = 0 then fmt else format_next False),
         (after_fread n w)\<lparr>faults := drop k (faults w),
           trace := trace w @ map2 (Fwrite f) (emitted False fmt (take n (pending w)))
                                (outcomes k (faults w))\<rparr>))"

lemma main_runbin2h_chunks_step:
  assumes "\<not> crashed w"
  shows "main_runbin2h_chunks intel (Some f) (True, fmt, w) =
     (if pending w = [] \<and> err_ind (after_fread (MAIN_CHUNKSIZE intel) w)
      then (False, fmt, after_fread (MAIN_CHUNKSIZE intel) w)
      else if eof_ind (after_fread (MAIN_CHUNKSIZE intel) w)
        then after_bytes_h f (MAIN_CHUNKSIZE intel) fmt w
        else main_runbin2h_chunks intel (Some f) (after_bytes_h f (MAIN_CHUNKSIZE intel) fmt w))"
proof -
  let ?n = "MAIN_CHUNKSIZE intel"
  have c: "\<not> crashed (snd (fread ?n w))"
    using assms by (simp add: fread_def)
  have k0: "(min (length (pending w)) ?n = 0) = (pending w = [])"
    using MAIN_CHUNKSIZE_pos [of intel] by (cases "pending w") (auto simp: min_def)
  have b: "main_runbin2h_bytes (Some f) (take ?n (pending w)) (True, fmt, snd (fread ?n w))
      = after_bytes_h f ?n fmt w"
    unfolding main_runbin2h_bytes_eq [OF c]
    using MAIN_CHUNKSIZE_pos [of intel]
    by (simp add: after_bytes_h_def after_fread_def fread_def Let_def k0)
  have e: "eof_ind (snd (snd (after_bytes_h f ?n fmt w))) = eof_ind (after_fread ?n w)"
    by (simp add: after_bytes_h_def Let_def)
  have buf: "fst (fread ?n w) = take ?n (pending w)"
    by (simp add: fread_def)
  have empty: "(length (fst (fread ?n w)) < 1) = (pending w = [])"
    by (simp add: fread_def k0)
  then have empty': "(fst (fread ?n w) = []) = (pending w = [])"
    by simp
  have unfold: "main_runbin2h_chunks intel (Some f) (True, fmt, w) =
     (let st2 = (if \<not> (pending w = [] \<and> ferror (snd (fread ?n w)))
                 then main_runbin2h_bytes (Some f) (fst (fread ?n w)) (True, fmt, snd (fread ?n w))
                 else (False, fmt, snd (fread ?n w)))
      in if feof (snd (snd st2)) then st2 else main_runbin2h_chunks intel (Some f) st2)"
    by (subst main_runbin2h_chunks.simps) (simp add: split_beta Let_def empty')
  show ?thesis
  proof (cases "pending w = [] \<and> err_ind (after_fread ?n w)")
    case True
    then have "(pending w = [] \<and> ferror (snd (fread ?n w))) = True"
      by (simp add: ferror_def after_fread_def)
    then show ?thesis
      unfolding unfold using True by (simp add: Let_def after_fread_def)
  next
    case False
    then have cond: "(pending w = [] \<and> ferror (snd (fread ?n w))) = False"
      by (simp add: ferror_def after_fread_def)
    have cond': "(pending w = [] \<and> err_ind (after_fread ?n w)) = False"
      using False by simp
    show ?thesis
      unfolding unfold cond cond'
      by (simp add: feof_def Let_def buf b e)
  qed
qed

definition chunks_post_h ::
  "nat \<Rightarrow> string \<Rightarrow> string \<Rightarrow> world \<Rightarrow> nat \<Rightarrow> bool \<times> string \<times> world \<Rightarrow> bool" where
  "chunks_post_h n f fmt w k st =
     (case st of (s', fmt', w') \<Rightarrow>
        k \<le> length (pending w)
        \<and> pending w' = drop k (pending w)
        \<and> faults w' = drop k (faults w)
        \<and> trace w' = trace w @ map2 (Fwrite f) (emitted False fmt (take k (pending w)))
                                   (outcomes k (faults w))
        \<and> \<not> crashed w'
        \<and> broken w' = broken w
        \<and> (s' \<longrightarrow> list_all (\<lambda>b. b) (outcomes k (faults w)))
        \<and> (\<forall>i<k. \<not> outcomes k (faults w) ! i \<longrightarrow> k \<le> (i div n + 1) * n))"

lemma chunks_post_h_after_bytes:
  assumes "\<not> crashed w" and "0 < n"
  shows "chunks_post_h n f fmt w (min (length (pending w)) n) (after_bytes_h f n fmt w)"
  using assms
  by (auto simp: chunks_post_h_def after_bytes_h_def Let_def min_def)

lemma chunks_post_h_compose:
  assumes n: "0 < n" and c: "c = min (length (pending w)) n"
    and s2: "list_all (\<lambda>b. b) (outcomes c (faults w))"
    and post: "chunks_post_h n f (if c = 0 then fmt else format_next False)
                 ((after_fread n w)\<lparr>faults := drop c (faults w),
                    trace := trace w @ map2 (Fwrite f) (emitted False fmt (take n (pending w)))
                                         (outcomes c (faults w))\<rparr>) k2 st"
  shows "chunks_post_h n f fmt w (c + k2) st"
proof -
  obtain s' fmt' w' where st: "st = (s', fmt', w')"
    by (cases st) auto
  let ?fmt2 = "if c = 0 then fmt else format_next False"
  from post have k2: "k2 \<le> length (pending w) - n"
    and p': "pending w' = drop k2 (drop n (pending w))"
    and f': "faults w' = drop k2 (drop c (faults w))"
    and t': "trace w' = (trace w @ map2 (Fwrite f) (emitted False fmt (take n (pending w)))
                                         (outcomes c (faults w)))
               @ map2 (Fwrite f) (emitted False ?fmt2 (take k2 (drop n (pending w))))
                                   (outcomes k2 (drop c (faults w)))"
    and c': "\<not> crashed w'"
    and b': "broken w' = broken w"
    and s': "s' \<longrightarrow> list_all (\<lambda>b. b) (outcomes k2 (drop c (faults w)))"
    and ih: "\<forall>j<k2. \<not> outcomes k2 (drop c (faults w)) ! j \<longrightarrow> k2 \<le> (j div n + 1) * n"
    by (simp_all add: chunks_post_h_def st)
  have cn: "k2 = 0 \<or> c = n"
    using k2 c by (auto simp: min_def)
  have tn: "take n (pending w) = take c (pending w)"
    using c by (auto simp: min_def)
  have dn: "drop k2 (drop n (pending w)) = drop (c + k2) (pending w)"
    using cn k2 c by (auto simp: min_def add.commute)
  have tk: "take (c + k2) (pending w) = take c (pending w) @ take k2 (drop n (pending w))"
    using cn by (auto simp: take_add)
  have ne: "(take c (pending w) = []) = (c = 0)"
    using c n by (cases "pending w") (auto simp: min_def)
  have bound: "c + k2 \<le> (i div n + 1) * n"
    if i: "i < c + k2" and bad: "\<not> outcomes (c + k2) (faults w) ! i" for i
  proof (cases "i < c")
    case True
    with s2 bad show ?thesis
      by (simp add: outcomes_add nth_append list_all_length)
  next
    case False
    then have j: "i - c < k2" using i by simp
    then have cn': "c = n" using cn by auto
    from bad False have "\<not> outcomes k2 (drop c (faults w)) ! (i - c)"
      by (simp add: outcomes_add nth_append)
    with ih j have "k2 \<le> ((i - n) div n + 1) * n" unfolding cn' by blast
    moreover have "i div n = Suc ((i - n) div n)"
      using False n cn' by (simp add: le_div_geq)
    ultimately show ?thesis using cn' by simp
  qed
  have le: "c + k2 \<le> length (pending w)"
    using k2 c cn by (auto simp: min_def)
  have em: "emitted False fmt (take (c + k2) (pending w)) =
            emitted False fmt (take c (pending w)) @ emitted False ?fmt2 (take k2 (drop n (pending w)))"
    unfolding tk emitted_append ne by simp
  have t: "trace w' = trace w @ map2 (Fwrite f) (emitted False fmt (take (c + k2) (pending w)))
                                   (outcomes (c + k2) (faults w))"
  proof -
    have "length (emitted False fmt (take c (pending w))) = length (outcomes c (faults w))"
      using c by (simp add: min_def)
    then show ?thesis
      unfolding t' em tn outcomes_add by simp
  qed
  have f: "faults w' = drop (c + k2) (faults w)"
    unfolding f' by (simp add: add.commute)
  have s: "s' \<longrightarrow> list_all (\<lambda>b. b) (outcomes (c + k2) (faults w))"
    using s' s2 by (simp add: outcomes_add)
  show ?thesis
    unfolding st chunks_post_h_def
    using le p' dn f t c' b' s bound by simp
qed

lemma main_runbin2h_chunks_post:
  assumes "\<not> crashed w"
  shows "\<exists>k. chunks_post_h (MAIN_CHUNKSIZE intel) f fmt w k
               (main_runbin2h_chunks intel (Some f) (True, fmt, w))"
  using assms
proof (induction "length (pending w)" arbitrary: w fmt rule: less_induct)
  case less
  let ?n = "MAIN_CHUNKSIZE intel"
  let ?c = "min (length (pending w)) ?n"
  let ?st2 = "after_bytes_h f ?n fmt w"
  have n: "0 < ?n" by (rule MAIN_CHUNKSIZE_pos)
  note step = main_runbin2h_chunks_step [OF less.prems, of intel f fmt]
  have bytes: "chunks_post_h ?n f fmt w ?c ?st2"
    by (rule chunks_post_h_after_bytes [OF less.prems n])
  show ?case
  proof (cases "pending w = [] \<and> err_ind (after_fread ?n w)")
    case True
    have "chunks_post_h ?n f fmt w 0 (main_runbin2h_chunks intel (Some f) (True, fmt, w))"
      unfolding step if_P [OF True] using less.prems True by (simp add: chunks_post_h_def)
    then show ?thesis ..
  next
    case False
    note step' = step [unfolded if_not_P [OF False]]
    show ?thesis
    proof (cases "eof_ind (after_fread ?n w)")
      case True
      have "main_runbin2h_chunks intel (Some f) (True, fmt, w) = ?st2"
        unfolding step' if_P [OF True] ..
      with bytes show ?thesis by auto
    next
      case noeof: False
      note step'' = step' [unfolded if_not_P [OF noeof]]
      show ?thesis
      proof (cases "fst ?st2")
        case False
        then have "main_runbin2h_chunks intel (Some f) ?st2 = ?st2"
          by (cases ?st2) simp
        then have "main_runbin2h_chunks intel (Some f) (True, fmt, w) = ?st2"
          unfolding step'' .
        with bytes show ?thesis by auto
      next
        case s2: True
        let ?w2 = "(after_fread ?n w)\<lparr>faults := drop ?c (faults w),
                    trace := trace w @ map2 (Fwrite f) (emitted False fmt (take ?n (pending w)))
                                         (outcomes ?c (faults w))\<rparr>"
        let ?fmt2 = "if ?c = 0 then fmt else format_next False"
        have st2: "?st2 = (True, ?fmt2, ?w2)"
          using s2 by (simp add: after_bytes_h_def Let_def)
        have ok: "list_all (\<lambda>b. b) (outcomes ?c (faults w))"
          using s2 by (simp_all add: after_bytes_h_def Let_def)
        have ne: "pending w \<noteq> []"
          using \<open>\<not> (pending w = [] \<and> err_ind (after_fread ?n w))\<close> noeof n by auto
        then have shorter: "length (pending ?w2) < length (pending w)"
          using n by simp
        have c2: "\<not> crashed ?w2" using less.prems by simp
        from less.hyps [OF shorter c2, of ?fmt2]
        obtain k2 where k2: "chunks_post_h ?n f ?fmt2 ?w2 k2
               (main_runbin2h_chunks intel (Some f) (True, ?fmt2, ?w2))"
          by blast
        have eq: "main_runbin2h_chunks intel (Some f) (True, fmt, w) =
                  main_runbin2h_chunks intel (Some f) (True, ?fmt2, ?w2)"
          unfolding step'' st2 ..
        have "chunks_post_h ?n f fmt w (?c + k2)
                 (main_runbin2h_chunks intel (Some f) (True, fmt, w))"
          unfolding eq
          by (rule chunks_post_h_compose [OF n refl ok k2])
        then show ?thesis ..
      qed
    qed
  qed
qed

lemma main_runbin2h_chunks_success:
  assumes "\<not> crashed w" and "\<not> eof_ind w" and "err_ind w \<longrightarrow> broken w"
  shows "fst (main_runbin2h_chunks intel (Some f) (True, fmt, w)) =
           (\<not> broken w \<and> list_all (\<lambda>b. b) (outcomes (length (pending w)) (faults w)))"
  using assms
proof (induction "length (pending w)" arbitrary: w fmt rule: less_induct)
  case less
  let ?n = "MAIN_CHUNKSIZE intel"
  let ?c = "min (length (pending w)) ?n"
  let ?st2 = "after_bytes_h f ?n fmt w"
  have n: "0 < ?n" by (rule MAIN_CHUNKSIZE_pos)
  note step = main_runbin2h_chunks_step [OF less.prems(1), of intel f fmt]
  have split: "length (pending w) = ?c + length (drop ?n (pending w))"
    by (simp add: min_def)
  have fst2: "fst ?st2 = list_all (\<lambda>b. b) (outcomes ?c (faults w))"
    by (simp add: after_bytes_h_def Let_def)
  have rhs: "list_all (\<lambda>b. b) (outcomes (length (pending w)) (faults w)) =
             (fst ?st2 \<and> list_all (\<lambda>b. b) (outcomes (length (drop ?n (pending w))) (drop ?c (faults w))))"
    by (subst split) (auto simp only: outcomes_add fst2 list_all_append)
  show ?case
  proof (cases "pending w = [] \<and> err_ind (after_fread ?n w)")
    case True
    then have "broken w" using less.prems by auto
    then show ?thesis
      unfolding step if_P [OF True] by simp
  next
    case False
    note step' = step [unfolded if_not_P [OF False]]
    show ?thesis
    proof (cases "eof_ind (after_fread ?n w)")
      case True
      then have "length (pending w) < ?n" "\<not> broken w"
        using less.prems by auto
      then show ?thesis
        unfolding step' if_P [OF True] rhs by simp
    next
      case noeof: False
      note step'' = step' [unfolded if_not_P [OF noeof]]
      show ?thesis
      proof (cases "fst ?st2")
        case False
        then have "main_runbin2h_chunks intel (Some f) ?st2 = ?st2"
          by (cases ?st2) simp
        then show ?thesis
          unfolding step'' rhs using False by simp
      next
        case s2: True
        let ?w2 = "(after_fread ?n w)\<lparr>faults := drop ?c (faults w),
                    trace := trace w @ map2 (Fwrite f) (emitted False fmt (take ?n (pending w)))
                                         (outcomes ?c (faults w))\<rparr>"
        let ?fmt2 = "if ?c = 0 then fmt else format_next False"
        have st2: "?st2 = (True, ?fmt2, ?w2)"
          using s2 by (simp add: after_bytes_h_def Let_def)
        have ne: "pending w \<noteq> []"
          using \<open>\<not> (pending w = [] \<and> err_ind (after_fread ?n w))\<close> noeof n by auto
        then have shorter: "length (pending ?w2) < length (pending w)"
          using n by simp
        have c2: "\<not> crashed ?w2" using less.prems by simp
        have e2: "\<not> eof_ind ?w2" using noeof by simp
        have r2: "err_ind ?w2 \<longrightarrow> broken ?w2" using less.prems by auto
        note ih = less.hyps [OF shorter c2 e2 r2, of ?fmt2]
        show ?thesis
          unfolding step'' st2 ih rhs using s2 by simp
      qed
    qed
  qed
qed

section \<open>Runs of the two encoder blocks\<close>

lemma main_runbin2c_chunks_done:
  assumes "\<not> crashed w" and "\<not> eof_ind w" and "err_ind w \<longrightarrow> broken w"
    and "fst (main_runbin2c_chunks intel c99 (Some f) (True, fmt, len, w))"
  shows "pending (snd (snd (snd (main_runbin2c_chunks intel c99 (Some f) (True, fmt, len, w))))) = []"
  using assms
proof (induction "length (pending w)" arbitrary: w fmt len rule: less_induct)
  case less
  let ?n = "MAIN_CHUNKSIZE intel"
  let ?c = "min (length (pending w)) ?n"
  let ?st2 = "after_bytes c99 f ?n fmt len w"
  have n: "0 < ?n" by (rule MAIN_CHUNKSIZE_pos)
  note step = main_runbin2c_chunks_step [OF less.prems(1), of intel c99 f fmt len]
  show ?case
  proof (cases "pending w = [] \<and> err_ind (after_fread ?n w)")
    case True
    with less.prems(4) show ?thesis
      unfolding step if_P [OF True] by simp
  next
    case False
    note step' = step [unfolded if_not_P [OF False]]
    show ?thesis
    proof (cases "eof_ind (after_fread ?n w)")
      case True
      then have "length (pending w) < ?n"
        using less.prems by auto
      then show ?thesis
        unfolding step' if_P [OF True] by (simp add: after_bytes_def Let_def)
    next
      case noeof: False
      note step'' = step' [unfolded if_not_P [OF noeof]]
      show ?thesis
      proof (cases "fst ?st2")
        case False
        then have "main_runbin2c_chunks intel c99 (Some f) ?st2 = ?st2"
          by (cases ?st2) simp
        with less.prems(4) False show ?thesis
          unfolding step'' by simp
      next
        case s2: True
        let ?w2 = "(after_fread ?n w)\<lparr>faults := drop ?c (faults w),
                    trace := trace w @ map2 (Fwrite f) (emitted c99 fmt (take ?n (pending w)))
                                         (outcomes ?c (faults w))\<rparr>"
        let ?fmt2 = "if ?c = 0 then fmt else format_next c99"
        have st2: "?st2 = (True, ?fmt2, len + of_nat ?c, ?w2)"
          using s2 by (simp add: after_bytes_def Let_def)
        have ne: "pending w \<noteq> []"
          using \<open>\<not> (pending w = [] \<and> err_ind (after_fread ?n w))\<close> noeof n by auto
        then have shorter: "length (pending ?w2) < length (pending w)"
          using n by simp
        have c2: "\<not> crashed ?w2" using less.prems by simp
        have e2: "\<not> eof_ind ?w2" using noeof by simp
        have r2: "err_ind ?w2 \<longrightarrow> broken ?w2" using less.prems by auto
        have s: "fst (main_runbin2c_chunks intel c99 (Some f) (True, ?fmt2, len + of_nat ?c, ?w2))"
          using less.prems(4) unfolding step'' st2 .
        note ih = less.hyps [OF shorter c2 e2 r2 s]
        show ?thesis
          unfolding step'' st2 by (rule ih)
      qed
    qed
  qed
qed


definition fresh :: "world \<Rightarrow> bool" where
  "fresh w = (\<not> crashed w \<and> \<not> eof_ind w \<and> \<not> err_ind w)"

definition format_first :: "bool \<Rightarrow> string" where
  "format_first c99 = (if c99 then ''0x%hhXu'' else ''0x%hXu'')"

definition after_malloc :: "nat \<Rightarrow> world \<Rightarrow> world" where
  "after_malloc n w = record_call (Malloc n (next_ok w)) w"

lemma after_malloc_simps [simp]:
  "pending (after_malloc n w) = pending w"
  "faults (after_malloc n w) = tl (faults w)"
  "trace (after_malloc n w) = trace w @ [Malloc n (next_ok w)]"
  "crashed (after_malloc n w) = crashed w"
  "broken (after_malloc n w) = broken w"
  "eof_ind (after_malloc n w) = eof_ind w"
  "err_ind (after_malloc n w) = err_ind w"
  by (simp_all add: after_malloc_def record_call_def)

lemma main_runbin2c_encode_eq:
  assumes "\<not> crashed w"
  shows "main_runbin2c_encode intel c99 outfile w =
     (case main_runbin2c_chunks intel c99 outfile
             (next_ok w, format_first c99, 0, after_malloc (MAIN_CHUNKSIZE intel) w) of
        (s, fmt', len, w') \<Rightarrow> (s, len, w'))"
  using assms
  by (simp add: main_runbin2c_encode_def malloc_def format_first_def after_malloc_def
        split: prod.splits)

lemma main_runbin2c_encode_run:
  assumes alive: "\<not> crashed w"
    and run: "main_runbin2c_encode intel c99 (Some f) w = (s, (len :: 'a::len word), w')"
  shows "\<exists>k. k \<le> length (pending w)
     \<and> pending w' = drop k (pending w)
     \<and> faults w' = drop k (tl (faults w))
     \<and> trace w' = trace w @ Malloc (MAIN_CHUNKSIZE intel) (next_ok w)
          # map2 (Fwrite f) (emitted c99 (format_first c99) (take k (pending w)))
                             (outcomes k (tl (faults w)))
     \<and> len = of_nat k
     \<and> \<not> crashed w'
     \<and> (s \<longrightarrow> next_ok w \<and> list_all (\<lambda>b. b) (outcomes k (tl (faults w))) \<and> count_ok (0 :: 'a::len word) k)
     \<and> (\<forall>i<k. \<not> outcomes k (tl (faults w)) ! i \<longrightarrow> k \<le> (i div MAIN_CHUNKSIZE intel + 1) * MAIN_CHUNKSIZE intel)"
proof (cases "next_ok w")
  case False
  with run alive have "s = False" "len = 0" "w' = after_malloc (MAIN_CHUNKSIZE intel) w"
    by (simp_all add: main_runbin2c_encode_eq)
  then show ?thesis
    using alive by (intro exI [of _ 0]) simp
next
  case True
  let ?w1 = "after_malloc (MAIN_CHUNKSIZE intel) w"
  have c1: "\<not> crashed ?w1" using alive by simp
  obtain fmt' where r: "main_runbin2c_chunks intel c99 (Some f) (True, format_first c99, 0, ?w1)
                         = (s, fmt', len, w')"
    using run True alive by (auto simp: main_runbin2c_encode_eq split: prod.splits)
  from main_runbin2c_chunks_post [OF c1, of intel c99 f "format_first c99" "0 :: 'a word"]
  obtain k where "chunks_post (MAIN_CHUNKSIZE intel) c99 f (format_first c99) (0 :: 'a word) ?w1 k
                    (s, fmt', len, w')"
    unfolding r by blast
  then show ?thesis
    using True by (intro exI [of _ k]) (simp add: chunks_post_def)
qed

lemma main_runbin2c_encode_success:
  assumes "fresh w"
    and run: "main_runbin2c_encode intel c99 (Some f) w = (s, (len :: 'a::len word), w')"
  shows "s = (next_ok w \<and> \<not> broken w
              \<and> list_all (\<lambda>b. b) (outcomes (length (pending w)) (tl (faults w)))
              \<and> count_ok (0 :: 'a word) (length (pending w)))"
    and "s \<Longrightarrow> pending w' = []"
proof -
  let ?w1 = "after_malloc (MAIN_CHUNKSIZE intel) w"
  have alive: "\<not> crashed w" and c1: "\<not> crashed ?w1" and e1: "\<not> eof_ind ?w1"
    and r1: "err_ind ?w1 \<longrightarrow> broken ?w1"
    using assms(1) by (simp_all add: fresh_def)
  show "s = (next_ok w \<and> \<not> broken w
              \<and> list_all (\<lambda>b. b) (outcomes (length (pending w)) (tl (faults w)))
              \<and> count_ok (0 :: 'a word) (length (pending w)))"
  proof (cases "next_ok w")
    case False
    with run alive show ?thesis by (simp add: main_runbin2c_encode_eq)
  next
    case True
    have "s = fst (main_runbin2c_chunks intel c99 (Some f) (True, format_first c99, (0 :: 'a word), ?w1))"
      using run True alive by (auto simp: main_runbin2c_encode_eq split: prod.splits)
    then show ?thesis
      unfolding main_runbin2c_chunks_success [OF c1 e1 r1] using True by simp
  qed
  show "pending w' = []" if s
  proof -
    have t: "next_ok w"
      using that run alive by (cases "next_ok w") (simp_all add: main_runbin2c_encode_eq)
    obtain fmt' where r: "main_runbin2c_chunks intel c99 (Some f) (True, format_first c99, 0, ?w1)
                         = (s, fmt', len, w')"
      using run t alive by (auto simp: main_runbin2c_encode_eq split: prod.splits)
    from main_runbin2c_chunks_done [OF c1 e1 r1, of intel c99 f "format_first c99" "0 :: 'a word"] that
    show ?thesis unfolding r by simp
  qed
qed


lemma main_runbin2h_chunks_done:
  assumes "\<not> crashed w" and "\<not> eof_ind w" and "err_ind w \<longrightarrow> broken w"
    and "fst (main_runbin2h_chunks intel (Some f) (True, fmt, w))"
  shows "pending (snd (snd (main_runbin2h_chunks intel (Some f) (True, fmt, w)))) = []"
  using assms
proof (induction "length (pending w)" arbitrary: w fmt rule: less_induct)
  case less
  let ?n = "MAIN_CHUNKSIZE intel"
  let ?c = "min (length (pending w)) ?n"
  let ?st2 = "after_bytes_h f ?n fmt w"
  have n: "0 < ?n" by (rule MAIN_CHUNKSIZE_pos)
  note step = main_runbin2h_chunks_step [OF less.prems(1), of intel f fmt]
  show ?case
  proof (cases "pending w = [] \<and> err_ind (after_fread ?n w)")
    case True
    with less.prems(4) show ?thesis
      unfolding step if_P [OF True] by simp
  next
    case False
    note step' = step [unfolded if_not_P [OF False]]
    show ?thesis
    proof (cases "eof_ind (after_fread ?n w)")
      case True
      then have "length (pending w) < ?n"
        using less.prems by auto
      then show ?thesis
        unfolding step' if_P [OF True] by (simp add: after_bytes_h_def Let_def)
    next
      case noeof: False
      note step'' = step' [unfolded if_not_P [OF noeof]]
      show ?thesis
      proof (cases "fst ?st2")
        case False
        then have "main_runbin2h_chunks intel (Some f) ?st2 = ?st2"
          by (cases ?st2) simp
        with less.prems(4) False show ?thesis
          unfolding step'' by simp
      next
        case s2: True
        let ?w2 = "(after_fread ?n w)\<lparr>faults := drop ?c (faults w),
                    trace := trace w @ map2 (Fwrite f) (emitted False fmt (take ?n (pending w)))
                                         (outcomes ?c (faults w))\<rparr>"
        let ?fmt2 = "if ?c = 0 then fmt else format_next False"
        have st2: "?st2 = (True, ?fmt2, ?w2)"
          using s2 by (simp add: after_bytes_h_def Let_def)
        have ne: "pending w \<noteq> []"
          using \<open>\<not> (pending w = [] \<and> err_ind (after_fread ?n w))\<close> noeof n by auto
        then have shorter: "length (pending ?w2) < length (pending w)"
          using n by simp
        have c2: "\<not> crashed ?w2" using less.prems by simp
        have e2: "\<not> eof_ind ?w2" using noeof by simp
        have r2: "err_ind ?w2 \<longrightarrow> broken ?w2" using less.prems by auto
        have s: "fst (main_runbin2h_chunks intel (Some f) (True, ?fmt2, ?w2))"
          using less.prems(4) unfolding step'' st2 .
        note ih = less.hyps [OF shorter c2 e2 r2 s]
        show ?thesis
          unfolding step'' st2 by (rule ih)
      qed
    qed
  qed
qed

lemma main_runbin2h_encode_eq:
  assumes "\<not> crashed w"
  shows "main_runbin2h_encode intel outfile w =
     (case main_runbin2h_chunks intel outfile
             (next_ok w, format_first False, after_malloc (MAIN_CHUNKSIZE intel) w) of
        (s, fmt', w') \<Rightarrow> (s, w'))"
  using assms
  by (simp add: main_runbin2h_encode_def malloc_def format_first_def after_malloc_def
        split: prod.splits)

lemma main_runbin2h_encode_run:
  assumes alive: "\<not> crashed w"
    and run: "main_runbin2h_encode intel (Some f) w = (s, w')"
  shows "\<exists>k. k \<le> length (pending w)
     \<and> pending w' = drop k (pending w)
     \<and> faults w' = drop k (tl (faults w))
     \<and> trace w' = trace w @ Malloc (MAIN_CHUNKSIZE intel) (next_ok w)
          # map2 (Fwrite f) (emitted False (format_first False) (take k (pending w)))
                             (outcomes k (tl (faults w)))
     \<and> \<not> crashed w'
     \<and> (s \<longrightarrow> next_ok w \<and> list_all (\<lambda>b. b) (outcomes k (tl (faults w))))
     \<and> (\<forall>i<k. \<not> outcomes k (tl (faults w)) ! i \<longrightarrow> k \<le> (i div MAIN_CHUNKSIZE intel + 1) * MAIN_CHUNKSIZE intel)"
proof (cases "next_ok w")
  case False
  with run alive have "s = False" "w' = after_malloc (MAIN_CHUNKSIZE intel) w"
    by (simp_all add: main_runbin2h_encode_eq)
  then show ?thesis
    using alive by (intro exI [of _ 0]) simp
next
  case True
  let ?w1 = "after_malloc (MAIN_CHUNKSIZE intel) w"
  have c1: "\<not> crashed ?w1" using alive by simp
  obtain fmt' where r: "main_runbin2h_chunks intel (Some f) (True, format_first False, ?w1)
                         = (s, fmt', w')"
    using run True alive by (auto simp: main_runbin2h_encode_eq split: prod.splits)
  from main_runbin2h_chunks_post [OF c1, of intel f "format_first False"]
  obtain k where "chunks_post_h (MAIN_CHUNKSIZE intel) f (format_first False) ?w1 k (s, fmt', w')"
    unfolding r by blast
  then show ?thesis
    using True by (intro exI [of _ k]) (simp add: chunks_post_h_def)
qed

lemma main_runbin2h_encode_success:
  assumes "fresh w"
    and run: "main_runbin2h_encode intel (Some f) w = (s, w')"
  shows "s = (next_ok w \<and> \<not> broken w
              \<and> list_all (\<lambda>b. b) (outcomes (length (pending w)) (tl (faults w))))"
    and "s \<Longrightarrow> pending w' = []"
proof -
  let ?w1 = "after_malloc (MAIN_CHUNKSIZE intel) w"
  have alive: "\<not> crashed w" and c1: "\<not> crashed ?w1" and e1: "\<not> eof_ind ?w1"
    and r1: "err_ind ?w1 \<longrightarrow> broken ?w1"
    using assms(1) by (simp_all add: fresh_def)
  show "s = (next_ok w \<and> \<not> broken w
              \<and> list_all (\<lambda>b. b) (outcomes (length (pending w)) (tl (faults w))))"
  proof (cases "next_ok w")
    case False
    with run alive show ?thesis by (simp add: main_runbin2h_encode_eq)
  next
    case True
    have "s = fst (main_runbin2h_chunks intel (Some f) (True, format_first False, ?w1))"
      using run True alive by (auto simp: main_runbin2h_encode_eq split: prod.splits)
    then show ?thesis
      unfolding main_runbin2h_chunks_success [OF c1 e1 r1] using True by simp
  qed
  show "pending w' = []" if s
  proof -
    have t: "next_ok w"
      using that run alive by (cases "next_ok w") (simp_all add: main_runbin2h_encode_eq)
    obtain fmt' where r: "main_runbin2h_chunks intel (Some f) (True, format_first False, ?w1)
                         = (s, fmt', w')"
      using run t alive by (auto simp: main_runbin2h_encode_eq split: prod.splits)
    from main_runbin2h_chunks_done [OF c1 e1 r1, of intel f "format_first False"] that
    show ?thesis unfolding r by simp
  qed
qed

subsection \<open>Texts, elements and outcomes of a trace\<close>

fun join :: "string \<Rightarrow> string list \<Rightarrow> string" where
  "join sep [] = []"
| "join sep [x] = x"
| "join sep (x # y # ys) = x @ sep @ join sep (y # ys)"

fun elements :: "string \<Rightarrow> call list \<Rightarrow> nat" where
  "elements f [] = 0"
| "elements f (Fwrite g s ok # cs) = (if g = f \<and> ok then 1 else 0) + elements f cs"
| "elements f (c # cs) = elements f cs"

fun write_outcomes :: "call list \<Rightarrow> bool list" where
  "write_outcomes [] = []"
| "write_outcomes (Fwrite g s ok # cs) = ok # write_outcomes cs"
| "write_outcomes (c # cs) = write_outcomes cs"

lemma written_append: "written f (xs @ ys) = written f xs @ written f ys"
  by (induction f xs rule: written.induct) auto

lemma elements_append: "elements f (xs @ ys) = elements f xs + elements f ys"
  by (induction f xs rule: elements.induct) auto

lemma write_outcomes_append: "write_outcomes (xs @ ys) = write_outcomes xs @ write_outcomes ys"
  by (induction xs rule: write_outcomes.induct) auto

lemma written_map2:
  "length ts = length os \<Longrightarrow> list_all (\<lambda>b. b) os \<Longrightarrow> written f (map2 (Fwrite f) ts os) = concat ts"
  by (induction ts os rule: list_induct2) auto

lemma elements_map2:
  "length ts = length os \<Longrightarrow> list_all (\<lambda>b. b) os \<Longrightarrow> elements f (map2 (Fwrite f) ts os) = length ts"
  by (induction ts os rule: list_induct2) auto

lemma write_outcomes_map2:
  "length ts = length os \<Longrightarrow> write_outcomes (map2 (Fwrite f) ts os) = os"
  by (induction ts os rule: list_induct2) auto

lemma emitted_next: "emitted c99 (format_next c99) ds = map (\<lambda>d. '', '' @ literal d) ds"
  by (induction ds) (simp_all add: format_next_def sprintf_next)

lemma join_Cons: "join sep (x # xs) = x @ concat (map (\<lambda>y. sep @ y) xs)"
  by (induction xs arbitrary: x) auto

lemma concat_emitted:
  "concat (emitted c99 (format_first c99) ds) = join '', '' (map literal ds)"
proof (cases ds)
  case Nil
  then show ?thesis by simp
next
  case (Cons d ds')
  then show ?thesis
    by (simp add: emitted_next format_first_def sprintf_first join_Cons comp_def)
qed

lemma outcomes_all: "list_all (\<lambda>b. b) (outcomes k fs) = (True \<notin> set (take k fs))"
  by (induction k fs rule: outcomes.induct) (auto split: list.splits)

text \<open>
  The texts of the successful writes to a file, one by one and in order; and the
  elements of an array body: the literal of the first byte, and for every later byte
  the separator followed by its literal.
\<close>

fun writes :: "string \<Rightarrow> call list \<Rightarrow> string list" where
  "writes f [] = []"
| "writes f (Fwrite g s ok # cs) = (if g = f \<and> ok then s # writes f cs else writes f cs)"
| "writes f (c # cs) = writes f cs"

fun literal_elements :: "8 word list \<Rightarrow> string list" where
  "literal_elements [] = []"
| "literal_elements (d # ds) = literal d # map (\<lambda>e. '', '' @ literal e) ds"

lemma writes_append: "writes f (xs @ ys) = writes f xs @ writes f ys"
  by (induction f xs rule: writes.induct) auto

lemma writes_map2:
  "length ts = length os \<Longrightarrow> list_all (\<lambda>b. b) os \<Longrightarrow> writes f (map2 (Fwrite f) ts os) = ts"
  by (induction ts os rule: list_induct2) auto

lemma emitted_first: "emitted c99 (format_first c99) ds = literal_elements ds"
  by (cases ds) (simp_all add: emitted_next format_first_def sprintf_first)

lemma length_literal_elements: "length (literal_elements ds) = length ds"
  by (cases ds) simp_all

lemma concat_literal_elements: "concat (literal_elements ds) = join '', '' (map literal ds)"
  using concat_emitted [of True ds] by (simp add: emitted_first)

section \<open>Claims on the streaming encoder\<close>

text \<open>
  A process about to run: nothing traced yet, the input stream just opened on \<open>bytes\<close>
  (\<open>brk\<close>: the device fails after them), the fallible calls to come failing as \<open>fs\<close>
  says.
\<close>

definition process :: "8 word list \<Rightarrow> bool \<Rightarrow> bool list \<Rightarrow> world" where
  "process bytes brk fs =
     \<lparr>faults = fs, trace = [], crashed = False, pending = bytes, broken = brk,
      eof_ind = False, err_ind = False\<rparr>"

text \<open>The rendering the spec describes: always two hexadecimal digits.\<close>

definition literal_0xHH :: "8 word \<Rightarrow> string" where
  "literal_0xHH d = ''0x'' @ [digit_char (unat d div 16), digit_char (unat d mod 16)] @ ''u''"

lemmas run_defs =
  main_runbin2c_encode_def main_runbin2h_encode_def malloc_def
  main_runbin2c_chunks.simps main_runbin2h_chunks.simps
  fread_def feof_def ferror_def fprintf_def fwrite_text_def record_call_def next_ok_def
  MAIN_CHUNKSIZE_def process_def sprintf_plain sprintf_hhX sprintf_hX sprintf_Nil arg_num_def
  hexX_byte digit_char_def Let_def LONG_MAX_def word_sless_alt

lemma fresh_process [simp]: "fresh (process bytes brk fs)"
  by (simp add: fresh_def process_def)

lemma process_simps [simp]:
  "pending (process bytes brk fs) = bytes"
  "faults (process bytes brk fs) = fs"
  "trace (process bytes brk fs) = []"
  "broken (process bytes brk fs) = brk"
  "crashed (process bytes brk fs) = False"
  by (simp_all add: process_def)

lemma run_c_5_171_16:
  "(main_runbin2c_encode False True (Some ''a.h'') (process [5, 171, 16] False []) :: bool \<times> 64 word \<times> world)
   = (True, 3,
      \<lparr>faults = [],
       trace = [Malloc 4096 True, Fwrite ''a.h'' ''0x5u'' True,
                Fwrite ''a.h'' '', 0xABu'' True, Fwrite ''a.h'' '', 0x10u'' True],
       crashed = False, pending = [], broken = False, eof_ind = True, err_ind = False\<rparr>)"
  by (simp add: run_defs)

lemma run_h_5_171_16:
  "main_runbin2h_encode False (Some ''a.h'') (process [5, 171, 16] False [])
   = (True,
      \<lparr>faults = [],
       trace = [Malloc 4096 True, Fwrite ''a.h'' ''0x5u'' True,
                Fwrite ''a.h'' '', 0xABu'' True, Fwrite ''a.h'' '', 0x10u'' True],
       crashed = False, pending = [], broken = False, eof_ind = True, err_ind = False\<rparr>)"
  by (simp add: run_defs)

lemma run_c_fault:
  "(main_runbin2c_encode False True (Some ''a.h'') (process [1, 2] False [False, True]) :: bool \<times> 64 word \<times> world)
   = (False, 2,
      \<lparr>faults = [],
       trace = [Malloc 4096 True, Fwrite ''a.h'' ''0x1u'' False, Fwrite ''a.h'' '', 0x2u'' True],
       crashed = False, pending = [], broken = False, eof_ind = True, err_ind = False\<rparr>)"
  by (simp add: run_defs)

lemma run_h_fault:
  "main_runbin2h_encode False (Some ''a.h'') (process [1, 2] False [False, True])
   = (False,
      \<lparr>faults = [],
       trace = [Malloc 4096 True, Fwrite ''a.h'' ''0x1u'' False, Fwrite ''a.h'' '', 0x2u'' True],
       crashed = False, pending = [], broken = False, eof_ind = True, err_ind = False\<rparr>)"
  by (simp add: run_defs)

text \<open>
  C1, as amended. When the encoder block reports success, the text it added to the
  output file is the renderings of the bytes of the source, in input order, joined by
  \<open>", "\<close>: nothing before the first and nothing after the last. Each byte is rendered
  as \<open>0x\<close>, its value in upper-case hexadecimal \<^emph>\<open>without padding\<close> (one digit below
  16, two from 16 on), and \<open>u\<close>. This holds for the encoder of bin2c under both sets of
  formats, and for the encoder of bin2h.
\<close>

theorem encoder_payload_joined:
  "(fresh w \<longrightarrow> main_runbin2c_encode intel c99 (Some f) w = (True, len, w')
      \<longrightarrow> written f (trace w') = written f (trace w) @ join '', '' (map literal (pending w)))
   \<and> (fresh v \<longrightarrow> main_runbin2h_encode intel (Some g) v = (True, v')
      \<longrightarrow> written g (trace v') = written g (trace v) @ join '', '' (map literal (pending v)))"
proof (intro conjI impI)
  assume w: "fresh w" and run: "main_runbin2c_encode intel c99 (Some f) w = (True, len, w')"
  then have alive: "\<not> crashed w" by (simp add: fresh_def)
  from main_runbin2c_encode_run [OF alive run]
  obtain k where k: "pending w' = drop k (pending w)" "k \<le> length (pending w)"
    and t: "trace w' = trace w @ Malloc (MAIN_CHUNKSIZE intel) (next_ok w)
          # map2 (Fwrite f) (emitted c99 (format_first c99) (take k (pending w)))
                             (outcomes k (tl (faults w)))"
    and ok: "list_all (\<lambda>b. b) (outcomes k (tl (faults w)))"
    by auto
  from main_runbin2c_encode_success(2) [OF w run] k have "k = length (pending w)"
    by simp
  with t ok show "written f (trace w') = written f (trace w) @ join '', '' (map literal (pending w))"
    by (simp add: written_append written_map2 concat_emitted)
next
  assume v: "fresh v" and run: "main_runbin2h_encode intel (Some g) v = (True, v')"
  then have alive: "\<not> crashed v" by (simp add: fresh_def)
  from main_runbin2h_encode_run [OF alive run]
  obtain k where k: "pending v' = drop k (pending v)" "k \<le> length (pending v)"
    and t: "trace v' = trace v @ Malloc (MAIN_CHUNKSIZE intel) (next_ok v)
          # map2 (Fwrite g) (emitted False (format_first False) (take k (pending v)))
                             (outcomes k (tl (faults v)))"
    and ok: "list_all (\<lambda>b. b) (outcomes k (tl (faults v)))"
    by auto
  from main_runbin2h_encode_success(2) [OF v run] k have "k = length (pending v)"
    by simp
  with t ok show "written g (trace v') = written g (trace v) @ join '', '' (map literal (pending v))"
    by (simp add: written_append written_map2 concat_emitted)
qed

theorem encoder_payload_joined_witness:
  "fresh (process [5, 171, 16] False [])
   \<and> fst (main_runbin2c_encode False True (Some ''a.h'') (process [5, 171, 16] False [])
           :: bool \<times> 64 word \<times> world)
   \<and> written ''a.h'' (trace (snd (snd (main_runbin2c_encode False True (Some ''a.h'')
         (process [5, 171, 16] False []) :: bool \<times> 64 word \<times> world))))
       = ''0x5u, 0xABu, 0x10u''
   \<and> fst (main_runbin2h_encode False (Some ''a.h'') (process [5, 171, 16] False []))
   \<and> written ''a.h'' (trace (snd (main_runbin2h_encode False (Some ''a.h'')
         (process [5, 171, 16] False []))))
       = ''0x5u, 0xABu, 0x10u''"
  using encoder_payload_joined
    [of "process [5, 171, 16] False []" False True "''a.h''" "3 :: 64 word"
        "snd (snd (main_runbin2c_encode False True (Some ''a.h'')
           (process [5, 171, 16] False []) :: bool \<times> 64 word \<times> world))"
        "process [5, 171, 16] False []" "''a.h''"
        "snd (main_runbin2h_encode False (Some ''a.h'') (process [5, 171, 16] False []))"]
  by (simp add: run_c_5_171_16 run_h_5_171_16 literal_def digit_char_def)

theorem encoder_payload_padded_counterexample:
  "fst (main_runbin2c_encode False True (Some ''a.h'') (process [5] False [])
          :: bool \<times> 64 word \<times> world)
   \<and> written ''a.h'' (trace (snd (snd (main_runbin2c_encode False True (Some ''a.h'')
         (process [5] False []) :: bool \<times> 64 word \<times> world)))) = ''0x5u''
   \<and> join '', '' (map literal_0xHH [5]) = ''0x05u''"
  by (simp add: run_defs literal_0xHH_def)


text \<open>
  C2. When the encoder block reports success (the stream was read and written without
  error), the writes it added to the output file are the literal elements of the bytes
  of the source, one write for each byte and each the literal of that byte (after the
  separator, from the second on); so the number of literal elements emitted equals the
  number of bytes of the source, and so does the final count of bin2c, read as a signed
  \<^verbatim>\<open>long\<close>. The same elements are written by bin2h, which keeps no count.
\<close>

theorem encoder_element_count:
  "(fresh w \<longrightarrow> main_runbin2c_encode intel c99 (Some f) w = (True, len, w')
      \<longrightarrow> writes f (trace w') = writes f (trace w) @ literal_elements (pending w)
          \<and> length (writes f (trace w')) = length (writes f (trace w)) + length (pending w)
          \<and> elements f (trace w') = elements f (trace w) + length (pending w)
          \<and> sint len = int (length (pending w)))
   \<and> (fresh v \<longrightarrow> main_runbin2h_encode intel (Some g) v = (True, v')
      \<longrightarrow> writes g (trace v') = writes g (trace v) @ literal_elements (pending v)
          \<and> length (writes g (trace v')) = length (writes g (trace v)) + length (pending v)
          \<and> elements g (trace v') = elements g (trace v) + length (pending v))"
proof (intro conjI impI)
  assume w: "fresh w" and run: "main_runbin2c_encode intel c99 (Some f) w = (True, len, w')"
  then have alive: "\<not> crashed w" by (simp add: fresh_def)
  from main_runbin2c_encode_run [OF alive run]
  obtain k where k: "pending w' = drop k (pending w)" "k \<le> length (pending w)"
    and t: "trace w' = trace w @ Malloc (MAIN_CHUNKSIZE intel) (next_ok w)
          # map2 (Fwrite f) (emitted c99 (format_first c99) (take k (pending w)))
                             (outcomes k (tl (faults w)))"
    and ok: "list_all (\<lambda>b. b) (outcomes k (tl (faults w)))"
    and len: "len = of_nat k" and cnt: "count_ok (0 :: 'a word) k"
    by auto
  from main_runbin2c_encode_success(2) [OF w run] k have all: "k = length (pending w)"
    by simp
  with t ok show ws: "writes f (trace w') = writes f (trace w) @ literal_elements (pending w)"
    by (simp add: writes_append writes_map2 emitted_first length_literal_elements length_outcomes)
  then show "length (writes f (trace w')) = length (writes f (trace w)) + length (pending w)"
    by (simp add: length_literal_elements)
  from all t ok show "elements f (trace w') = elements f (trace w) + length (pending w)"
    by (simp add: elements_append elements_map2)
  from cnt have "k \<le> long_max TYPE('a)" by (simp add: count_ok_zero)
  then show "sint len = int (length (pending w))"
    unfolding len all [symmetric] by (rule sint_of_nat_small)
next
  assume v: "fresh v" and run: "main_runbin2h_encode intel (Some g) v = (True, v')"
  then have alive: "\<not> crashed v" by (simp add: fresh_def)
  from main_runbin2h_encode_run [OF alive run]
  obtain k where k: "pending v' = drop k (pending v)" "k \<le> length (pending v)"
    and t: "trace v' = trace v @ Malloc (MAIN_CHUNKSIZE intel) (next_ok v)
          # map2 (Fwrite g) (emitted False (format_first False) (take k (pending v)))
                             (outcomes k (tl (faults v)))"
    and ok: "list_all (\<lambda>b. b) (outcomes k (tl (faults v)))"
    by auto
  from main_runbin2h_encode_success(2) [OF v run] k have all: "k = length (pending v)"
    by simp
  with t ok show ws: "writes g (trace v') = writes g (trace v) @ literal_elements (pending v)"
    by (simp add: writes_append writes_map2 emitted_first length_literal_elements length_outcomes)
  then show "length (writes g (trace v')) = length (writes g (trace v)) + length (pending v)"
    by (simp add: length_literal_elements)
  from all t ok show "elements g (trace v') = elements g (trace v) + length (pending v)"
    by (simp add: elements_append elements_map2)
qed

theorem encoder_element_count_witness:
  "fresh (process [5, 171, 16] False [])
   \<and> (main_runbin2c_encode False True (Some ''a.h'') (process [5, 171, 16] False [])
          :: bool \<times> 64 word \<times> world)
       = (True, 3, snd (snd (main_runbin2c_encode False True (Some ''a.h'')
                               (process [5, 171, 16] False []) :: bool \<times> 64 word \<times> world)))
   \<and> writes ''a.h'' (trace (snd (snd (main_runbin2c_encode False True (Some ''a.h'')
         (process [5, 171, 16] False []) :: bool \<times> 64 word \<times> world))))
       = [''0x5u'', '', 0xABu'', '', 0x10u'']
   \<and> literal_elements [5, 171, 16] = [''0x5u'', '', 0xABu'', '', 0x10u'']
   \<and> elements ''a.h'' (trace (snd (snd (main_runbin2c_encode False True (Some ''a.h'')
         (process [5, 171, 16] False []) :: bool \<times> 64 word \<times> world)))) = 3
   \<and> sint (3 :: 64 word) = 3
   \<and> fst (main_runbin2h_encode False (Some ''a.h'') (process [5, 171, 16] False []))
   \<and> writes ''a.h'' (trace (snd (main_runbin2h_encode False (Some ''a.h'')
         (process [5, 171, 16] False []))))
       = [''0x5u'', '', 0xABu'', '', 0x10u'']"
  using encoder_element_count
    [of "process [5, 171, 16] False []" False True "''a.h''" "3 :: 64 word"
        "snd (snd (main_runbin2c_encode False True (Some ''a.h'')
           (process [5, 171, 16] False []) :: bool \<times> 64 word \<times> world))"
        "process [5, 171, 16] False []" "''a.h''"
        "snd (main_runbin2h_encode False (Some ''a.h'') (process [5, 171, 16] False []))"]
  by (simp add: run_c_5_171_16 run_h_5_171_16 literal_def digit_char_def)

text \<open>
  C4, as amended. The inner loop does not test the flag, so after a failed write the
  encoder still issues the writes for the remaining bytes of the chunk it has read.
  What holds: if the write for the byte at index \<open>i\<close> of the source fails, the block
  reports failure, it reads no further chunk (the writes it issued are for the bytes up
  to the end of the chunk that holds byte \<open>i\<close>, at most), and the bytes it took from
  the source are exactly those it issued a write for.
\<close>

theorem encoder_write_failure:
  "(\<not> crashed w \<longrightarrow> main_runbin2c_encode intel c99 (Some f) w = (s, len, w')
      \<longrightarrow> i < length (write_outcomes (drop (length (trace w)) (trace w')))
      \<longrightarrow> \<not> write_outcomes (drop (length (trace w)) (trace w')) ! i
      \<longrightarrow> \<not> s
          \<and> length (write_outcomes (drop (length (trace w)) (trace w')))
               \<le> (i div MAIN_CHUNKSIZE intel + 1) * MAIN_CHUNKSIZE intel
          \<and> pending w' = drop (length (write_outcomes (drop (length (trace w)) (trace w'))))
                            (pending w))
   \<and> (\<not> crashed v \<longrightarrow> main_runbin2h_encode intel (Some g) v = (r, v')
      \<longrightarrow> j < length (write_outcomes (drop (length (trace v)) (trace v')))
      \<longrightarrow> \<not> write_outcomes (drop (length (trace v)) (trace v')) ! j
      \<longrightarrow> \<not> r
          \<and> length (write_outcomes (drop (length (trace v)) (trace v')))
               \<le> (j div MAIN_CHUNKSIZE intel + 1) * MAIN_CHUNKSIZE intel
          \<and> pending v' = drop (length (write_outcomes (drop (length (trace v)) (trace v'))))
                            (pending v))"
proof (intro conjI impI)
  let ?os = "write_outcomes (drop (length (trace w)) (trace w'))"
  assume alive: "\<not> crashed w" and run: "main_runbin2c_encode intel c99 (Some f) w = (s, len, w')"
    and i: "i < length ?os" and bad: "\<not> ?os ! i"
  from main_runbin2c_encode_run [OF alive run]
  obtain k where k: "pending w' = drop k (pending w)" "k \<le> length (pending w)"
    and t: "trace w' = trace w @ Malloc (MAIN_CHUNKSIZE intel) (next_ok w)
          # map2 (Fwrite f) (emitted c99 (format_first c99) (take k (pending w)))
                             (outcomes k (tl (faults w)))"
    and ok: "s \<longrightarrow> list_all (\<lambda>b. b) (outcomes k (tl (faults w)))"
    and bound: "\<forall>i<k. \<not> outcomes k (tl (faults w)) ! i
                  \<longrightarrow> k \<le> (i div MAIN_CHUNKSIZE intel + 1) * MAIN_CHUNKSIZE intel"
    by auto
  have os: "?os = outcomes k (tl (faults w))"
    using k(2) by (simp add: t write_outcomes_map2)
  show "\<not> s" using ok i bad by (auto simp: os list_all_length)
  show "length ?os \<le> (i div MAIN_CHUNKSIZE intel + 1) * MAIN_CHUNKSIZE intel"
    using bound i bad by (simp add: os)
  show "pending w' = drop (length ?os) (pending w)"
    using k(1) by (simp add: os)
next
  let ?os = "write_outcomes (drop (length (trace v)) (trace v'))"
  assume alive: "\<not> crashed v" and run: "main_runbin2h_encode intel (Some g) v = (r, v')"
    and i: "j < length ?os" and bad: "\<not> ?os ! j"
  from main_runbin2h_encode_run [OF alive run]
  obtain k where k: "pending v' = drop k (pending v)" "k \<le> length (pending v)"
    and t: "trace v' = trace v @ Malloc (MAIN_CHUNKSIZE intel) (next_ok v)
          # map2 (Fwrite g) (emitted False (format_first False) (take k (pending v)))
                             (outcomes k (tl (faults v)))"
    and ok: "r \<longrightarrow> list_all (\<lambda>b. b) (outcomes k (tl (faults v)))"
    and bound: "\<forall>i<k. \<not> outcomes k (tl (faults v)) ! i
                  \<longrightarrow> k \<le> (i div MAIN_CHUNKSIZE intel + 1) * MAIN_CHUNKSIZE intel"
    by auto
  have os: "?os = outcomes k (tl (faults v))"
    using k(2) by (simp add: t write_outcomes_map2)
  show "\<not> r" using ok i bad by (auto simp: os list_all_length)
  show "length ?os \<le> (j div MAIN_CHUNKSIZE intel + 1) * MAIN_CHUNKSIZE intel"
    using bound i bad by (simp add: os)
  show "pending v' = drop (length ?os) (pending v)"
    using k(1) by (simp add: os)
qed


theorem encoder_write_failure_witness:
  "\<not> crashed (process [1, 2] False [False, True])
   \<and> write_outcomes (drop (length (trace (process [1, 2] False [False, True])))
        (trace (snd (snd (main_runbin2c_encode False True (Some ''a.h'')
           (process [1, 2] False [False, True]) :: bool \<times> 64 word \<times> world)))))
       = [False, True]
   \<and> \<not> fst (main_runbin2c_encode False True (Some ''a.h'')
           (process [1, 2] False [False, True]) :: bool \<times> 64 word \<times> world)
   \<and> pending (snd (snd (main_runbin2c_encode False True (Some ''a.h'')
           (process [1, 2] False [False, True]) :: bool \<times> 64 word \<times> world))) = []
   \<and> write_outcomes (drop (length (trace (process [1, 2] False [False, True])))
        (trace (snd (main_runbin2h_encode False (Some ''a.h'')
           (process [1, 2] False [False, True])))))
       = [False, True]
   \<and> \<not> fst (main_runbin2h_encode False (Some ''a.h'') (process [1, 2] False [False, True]))"
  using encoder_write_failure
    [of "process [1, 2] False [False, True]" False True "''a.h''" False "2 :: 64 word"
        "snd (snd (main_runbin2c_encode False True (Some ''a.h'')
           (process [1, 2] False [False, True]) :: bool \<times> 64 word \<times> world))"
        0
        "process [1, 2] False [False, True]" "''a.h''" False
        "snd (main_runbin2h_encode False (Some ''a.h'') (process [1, 2] False [False, True]))"
        0]
  by (simp add: run_c_fault run_h_fault)

theorem encoder_abort_counterexample:
  "trace (snd (snd (main_runbin2c_encode False True (Some ''a.h'')
      (process [1, 2] False [False, True]) :: bool \<times> 64 word \<times> world)))
     = [Malloc 4096 True, Fwrite ''a.h'' ''0x1u'' False, Fwrite ''a.h'' '', 0x2u'' True]
   \<and> written ''a.h'' (trace (snd (snd (main_runbin2c_encode False True (Some ''a.h'')
      (process [1, 2] False [False, True]) :: bool \<times> 64 word \<times> world)))) = '', 0x2u''
   \<and> trace (snd (main_runbin2h_encode False (Some ''a.h'') (process [1, 2] False [False, True])))
     = [Malloc 4096 True, Fwrite ''a.h'' ''0x1u'' False, Fwrite ''a.h'' '', 0x2u'' True]"
  by (simp add: run_c_fault run_h_fault)

text \<open>
  C5. The count of bin2c is the number of bytes the block has processed (one increment
  per byte). Whenever the source holds more bytes than \<^verbatim>\<open>LONG_MAX\<close>, the block
  reports failure, whatever else happens. When the source holds at most
  \<^verbatim>\<open>LONG_MAX\<close> bytes and neither the input device nor any call fails, the guard is
  never triggered: the block reports success and the count, read as a signed
  \<^verbatim>\<open>long\<close>, is the number of bytes. \<open>'a\<close> is the width of \<^verbatim>\<open>long\<close>.
\<close>

theorem encoder_count_guard:
  "fresh w \<longrightarrow> main_runbin2c_encode intel c99 (Some f) w = (s, (len :: 'a::len word), w')
     \<longrightarrow> len = of_nat (length (pending w) - length (pending w'))
         \<and> (sint (LONG_MAX :: 'a word) < int (length (pending w)) \<longrightarrow> \<not> s)
         \<and> (int (length (pending w)) \<le> sint (LONG_MAX :: 'a word) \<and> \<not> broken w
              \<and> True \<notin> set (faults w)
             \<longrightarrow> s \<and> sint len = int (length (pending w)))"
proof (intro impI)
  assume w: "fresh w" and run: "main_runbin2c_encode intel c99 (Some f) w = (s, len, w')"
  then have alive: "\<not> crashed w" by (simp add: fresh_def)
  from main_runbin2c_encode_run [OF alive run]
  obtain k where k: "pending w' = drop k (pending w)" "k \<le> length (pending w)"
    and len: "len = of_nat k"
    by auto
  note iff = main_runbin2c_encode_success(1) [OF w run]
  have a: "len = of_nat (length (pending w) - length (pending w'))"
    using k by (simp add: len)
  have b: "\<not> s" if "sint (LONG_MAX :: 'a word) < int (length (pending w))"
    using that unfolding iff by (simp add: count_ok_zero sint_LONG_MAX)
  have c: "s \<and> sint len = int (length (pending w))"
    if h: "int (length (pending w)) \<le> sint (LONG_MAX :: 'a word) \<and> \<not> broken w
             \<and> True \<notin> set (faults w)"
  proof -
    from h have small: "length (pending w) \<le> long_max TYPE('a)"
      by (simp add: sint_LONG_MAX)
    from h have "next_ok w"
      by (auto simp: next_ok_def split: list.splits)
    moreover from h have "True \<notin> set (take (length (pending w)) (tl (faults w)))"
      by (cases "faults w") (auto dest: in_set_takeD)
    ultimately have s using h small unfolding iff
      by (simp add: outcomes_all count_ok_zero)
    with main_runbin2c_encode_success(2) [OF w run] k have "k = length (pending w)"
      by simp
    with \<open>s\<close> small show ?thesis
      unfolding len by (simp add: sint_of_nat_small)
  qed
  from a b c show "len = of_nat (length (pending w) - length (pending w'))
         \<and> (sint (LONG_MAX :: 'a word) < int (length (pending w)) \<longrightarrow> \<not> s)
         \<and> (int (length (pending w)) \<le> sint (LONG_MAX :: 'a word) \<and> \<not> broken w
              \<and> True \<notin> set (faults w)
             \<longrightarrow> s \<and> sint len = int (length (pending w)))"
    by blast
qed


theorem encoder_count_guard_witness:
  "fresh (process [5, 171, 16] False [])
   \<and> int (length (pending (process [5, 171, 16] False []))) \<le> sint (LONG_MAX :: 64 word)
   \<and> \<not> broken (process [5, 171, 16] False [])
   \<and> True \<notin> set (faults (process [5, 171, 16] False []))
   \<and> fst (main_runbin2c_encode False True (Some ''a.h'') (process [5, 171, 16] False [])
          :: bool \<times> 64 word \<times> world)
   \<and> sint (fst (snd (main_runbin2c_encode False True (Some ''a.h'')
          (process [5, 171, 16] False []) :: bool \<times> 64 word \<times> world))) = 3
   \<and> fresh (process (replicate 128 7) False [])
   \<and> sint (LONG_MAX :: 8 word) < int (length (pending (process (replicate 128 7) False [])))
   \<and> \<not> fst (main_runbin2c_encode False True (Some ''a.h'') (process (replicate 128 7) False [])
          :: bool \<times> 8 word \<times> world)"
  using encoder_count_guard
    [of "process [5, 171, 16] False []" False True "''a.h''"
        "fst (main_runbin2c_encode False True (Some ''a.h'') (process [5, 171, 16] False [])
          :: bool \<times> 64 word \<times> world)"
        "fst (snd (main_runbin2c_encode False True (Some ''a.h'') (process [5, 171, 16] False [])
          :: bool \<times> 64 word \<times> world))"
        "snd (snd (main_runbin2c_encode False True (Some ''a.h'') (process [5, 171, 16] False [])
          :: bool \<times> 64 word \<times> world))"]
    encoder_count_guard
    [of "process (replicate 128 7) False []" False True "''a.h''"
        "fst (main_runbin2c_encode False True (Some ''a.h'') (process (replicate 128 7) False [])
          :: bool \<times> 8 word \<times> world)"
        "fst (snd (main_runbin2c_encode False True (Some ''a.h'') (process (replicate 128 7) False [])
          :: bool \<times> 8 word \<times> world))"
        "snd (snd (main_runbin2c_encode False True (Some ''a.h'') (process (replicate 128 7) False [])
          :: bool \<times> 8 word \<times> world))"]
  by (simp add: sint_LONG_MAX long_max_def run_c_5_171_16)

text \<open>
  C10. The loops of bin2h carry no count: their state is the flag, the format and the
  world. For a source of any length, the encoder block of bin2h reports failure exactly
  when the input device fails or one of its fallible calls (the allocation, and one
  write for each byte) fails. No length makes it fail by itself.
\<close>

theorem bin2h_encoder_no_count_failure:
  "fresh v \<longrightarrow> main_runbin2h_encode intel (Some g) v = (r, v')
     \<longrightarrow> r = (\<not> broken v \<and> True \<notin> set (take (Suc (length (pending v))) (faults v)))"
proof (intro impI)
  assume v: "fresh v" and run: "main_runbin2h_encode intel (Some g) v = (r, v')"
  have "(next_ok v \<and> True \<notin> set (take (length (pending v)) (tl (faults v))))
          = (True \<notin> set (take (Suc (length (pending v))) (faults v)))"
    by (cases "faults v") (auto simp: next_ok_def)
  then show "r = (\<not> broken v \<and> True \<notin> set (take (Suc (length (pending v))) (faults v)))"
    unfolding main_runbin2h_encode_success(1) [OF v run] outcomes_all by blast
qed

theorem bin2h_encoder_no_count_failure_witness:
  "fresh (process (replicate 128 7) False [])
   \<and> fst (main_runbin2h_encode False (Some ''a.h'') (process (replicate 128 7) False []))"
  using bin2h_encoder_no_count_failure
    [of "process (replicate 128 7) False []" False "''a.h''"
        "fst (main_runbin2h_encode False (Some ''a.h'') (process (replicate 128 7) False []))"
        "snd (main_runbin2h_encode False (Some ''a.h'') (process (replicate 128 7) False []))"]
  by simp

section \<open>Macro identifiers\<close>

text \<open>
  \<^verbatim>\<open>main_runbin2c_constructmacro_upperizemacro\<close> (lines 356 to 374): \<open>macro\<close> is
  what the buffer holds up to the cursor; the result is the buffer up to the returned
  cursor.
\<close>

fun main_runbin2c_constructmacro_upperizemacro :: "string \<Rightarrow> string \<Rightarrow> string" where
  "main_runbin2c_constructmacro_upperizemacro [] macro = macro"
| "main_runbin2c_constructmacro_upperizemacro (c # part) macro =
     (if c \<noteq> NUL
      then main_runbin2c_constructmacro_upperizemacro part (macro @ [toupper c])
      else macro)"

text \<open>
  \<^verbatim>\<open>main_runbin2c_constructmacro\<close> (lines 405 to 500). \<open>None\<close> is a null pointer,
  for the optional parts and for the result. \<open>fragment\<close> is a \<^verbatim>\<open>size_t\<close>, compared
  with the \<^verbatim>\<open>unsigned short\<close> \<open>length\<close> by value and then truncated to 16 bits.
\<close>

definition main_runbin2c_constructmacro ::
  "string option \<Rightarrow> string \<Rightarrow> string option \<Rightarrow> world \<Rightarrow> string option \<times> world" where
  "main_runbin2c_constructmacro prefix core suffix w =
     (let success = True;
          len = USHRT_MAX;
          (success, len) =
             (case prefix of
                None \<Rightarrow> (success, len)
              | Some p \<Rightarrow> (let fragment = strlen p
                          in (success \<and> fragment < unat len, len - of_nat fragment)));
          (success, len) =
             (let fragment = strlen core
              in (success \<and> fragment < unat len, len - of_nat fragment));
          (success, len) =
             (case suffix of
                None \<Rightarrow> (success, len)
              | Some s \<Rightarrow> (let fragment = strlen s
                          in (success \<and> fragment < unat len, len - of_nat fragment)));
          success = (success \<and> len \<ge> 1);
          len = USHRT_MAX - len;
          (macro, w) = (if success then malloc (unat len + 1) w else (False, w))
      in if macro
         then
           let cursor = [];
               cursor = (case prefix of
                           None \<Rightarrow> cursor
                         | Some p \<Rightarrow> main_runbin2c_constructmacro_upperizemacro p cursor);
               cursor = main_runbin2c_constructmacro_upperizemacro core cursor;
               cursor = (case suffix of
                           None \<Rightarrow> cursor
                         | Some s \<Rightarrow> main_runbin2c_constructmacro_upperizemacro s cursor)
           in (Some cursor, w)
         else (None, w))"

text \<open>\<^verbatim>\<open>main_runbin2c_outputsymbol\<close> (lines 535 to 577).\<close>

definition main_runbin2c_outputsymbol ::
  "string option \<Rightarrow> string \<Rightarrow> string option \<Rightarrow> string option \<Rightarrow> world \<Rightarrow> bool \<times> world" where
  "main_runbin2c_outputsymbol prefix symbol suffix outfile w =
     (let success = True;
          (success, w) =
             (case prefix of
                None \<Rightarrow> (success, w)
              | Some p \<Rightarrow> (let (error, w) = fputs p outfile w in (success \<and> error \<ge> 0, w)));
          (error, w) = fputs symbol outfile w;
          success = (success \<and> error \<ge> 0);
          (success, w) =
             (case suffix of
                None \<Rightarrow> (success, w)
              | Some s \<Rightarrow> (let (error, w) = fputs s outfile w in (success \<and> error \<ge> 0, w)))
      in (success, w))"

section \<open>main_runbin2c\<close>

text \<open>
  The size literal of the header (lines 955 to 982): the format and the argument of the
  \<^verbatim>\<open>fprintf\<close> call the chain of comparisons selects. The first branch exists only in
  a C99 build. The casts truncate to the width of the target type.
\<close>

definition main_runbin2c_sizeliteral :: "bool \<Rightarrow> 'a::len word \<Rightarrow> string \<times> arg list" where
  "main_runbin2c_sizeliteral c99 len =
     (if c99 \<and> sint len \<le> SCHAR_MAX then (''  %hhd'', [Num (sint (scast len :: 8 word))])
      else if sint len \<le> SHRT_MAX then (''  %hd'', [Num (sint (scast len :: 16 word))])
      else if sint len \<le> INT_MAX then (''  %d'', [Num (sint (scast len :: 32 word))])
      else (''  %ldl'', [Num (sint len)]))"

text \<open>
  The block that creates the file holding the definition (lines 656 to 848). \<open>to_int\<close>
  is the conversion of a \<^verbatim>\<open>bool\<close> to the \<^verbatim>\<open>int\<close> \<open>error\<close>, as in the assignment
  of the result of \<^verbatim>\<open>main_runbin2c_outputsymbol\<close>.
\<close>

definition to_int :: "bool \<Rightarrow> int" where
  "to_int b = (if b then 1 else 0)"

definition main_runbin2c_definition ::
  "bool \<Rightarrow> bool \<Rightarrow> string \<Rightarrow> string option \<Rightarrow> string option \<Rightarrow> string option \<Rightarrow> string
     \<Rightarrow> nat \<Rightarrow> bool \<Rightarrow> world \<Rightarrow> bool \<times> 'a::len word \<times> world" where
  "main_runbin2c_definition intel c99 symbol prefix suffix global outpath offset success w =
     (let outfile = None;
          (outfile, success, w) =
             (if success
              then (let (outfile, w) =
                          fopen (outpath[offset := (if global \<noteq> None then CHR ''c'' else CHR ''h'')]) w
                    in (outfile, outfile \<noteq> None, w))
              else (outfile, success, w));
          (success, w) =
             (if success
              then (let (error, w) =
                          (if global \<noteq> None
                           then fprintf outfile (''#include '' @ [DQ] @ ''%s.h'' @ [DQ, NL, NL])
                                  [Str symbol] w
                           else fputs ''static '' outfile w);
                        success = (success \<and> error \<ge> 0);
                        (error, w) = fputs ''unsigned char const '' outfile w;
                        success = (success \<and> error \<ge> 0)
                    in (success, w))
              else (success, w));
          (success, w) =
             (if success
              then (let (result, w) = main_runbin2c_outputsymbol prefix symbol suffix outfile w;
                        error = to_int result;
                        success = (success \<and> error \<ge> 0);
                        (error, w) = fputs ''[] = { '' outfile w;
                        success = (success \<and> error \<ge> 0)
                    in (success, w))
              else (success, w));
          (success, len, w) = main_runbin2c_encode intel c99 outfile w;
          (success, w) =
             (if success
              then (let (error, w) = fputs ('' };'' @ [NL]) outfile w in (error \<ge> 0, w))
              else (success, w));
          (success, w) =
             (if outfile \<noteq> None
              then (let (error, w) = fflush outfile w;
                        success = (success \<and> error \<ge> 0);
                        (error, w) = fclose outfile w;
                        success = (success \<and> error \<ge> 0)
                    in (success, w))
              else (success, w))
      in (success, len, w))"

text \<open>The block that creates the header when \<open>global\<close> is given (lines 859 to 1005).\<close>

definition main_runbin2c_header ::
  "bool \<Rightarrow> string \<Rightarrow> string option \<Rightarrow> string option \<Rightarrow> string option \<Rightarrow> string
     \<Rightarrow> nat \<Rightarrow> bool \<Rightarrow> 'a::len word \<Rightarrow> world \<Rightarrow> bool \<times> world" where
  "main_runbin2c_header c99 symbol prefix suffix global outpath offset success len w =
     (let outfile = None;
          (outfile, success, w) =
             (if success
              then (let (outfile, w) = fopen (outpath[offset := CHR ''h'']) w
                    in (outfile, outfile \<noteq> None, w))
              else (outfile, success, w));
          (success, w) =
             (if success
              then (let (macro, w) = main_runbin2c_constructmacro None symbol None w;
                        success = (macro \<noteq> None)
                    in if success
                       then (let (error, w) =
                                   fprintf outfile
                                     (''#if !defined ( __%s_H__ )'' @ [NL, NL] @ ''#define __%s_H__''
                                        @ [NL, NL] @ ''extern unsigned char const '')
                                     [Str (the macro), Str (the macro)] w
                             in (error \<ge> 0, w))
                       else (success, w))
              else (success, w));
          (success, w) =
             (if success
              then (let (result, w) = main_runbin2c_outputsymbol prefix symbol suffix outfile w;
                        error = to_int result;
                        success = (success \<and> error \<ge> 0);
                        (error, w) = fputs (''[];'' @ [NL, NL] @ ''#define '') outfile w;
                        success = (success \<and> error \<ge> 0)
                    in (success, w))
              else (success, w));
          (success, w) =
             (if success
              then (let (macro, w) = main_runbin2c_constructmacro prefix symbol global w;
                        success = (macro \<noteq> None);
                        (success, w) =
                           (if success
                            then (let (error, w) = fputs (the macro) outfile w in (error \<ge> 0, w))
                            else (success, w))
                    in if success
                       then (let (error, w) =
                                   fprintf outfile (fst (main_runbin2c_sizeliteral c99 len))
                                     (snd (main_runbin2c_sizeliteral c99 len)) w;
                                 success = (success \<and> error \<ge> 0);
                                 (error, w) = fputs ([NL, NL] @ ''#endif'' @ [NL]) outfile w;
                                 success = (success \<and> error \<ge> 0)
                             in (success, w))
                       else (success, w))
              else (success, w));
          (success, w) =
             (if outfile \<noteq> None
              then (let (error, w) = fflush outfile w;
                        success = (success \<and> error \<ge> 0);
                        (error, w) = fclose outfile w;
                        success = (success \<and> error \<ge> 0)
                    in (success, w))
              else (success, w))
      in (success, w))"

text \<open>
  \<^verbatim>\<open>main_runbin2c\<close> whole (lines 619 to 1014). \<open>long\<close> fixes the width of
  \<^verbatim>\<open>long\<close>. \<open>offset\<close> is a \<^verbatim>\<open>size_t\<close>; on an empty \<open>outpath\<close> the flag is
  false and \<open>offset\<close> is not used.
\<close>

definition main_runbin2c ::
  "'a::len itself \<Rightarrow> bool \<Rightarrow> bool \<Rightarrow> string \<Rightarrow> string option \<Rightarrow> string option \<Rightarrow> string option
     \<Rightarrow> string \<Rightarrow> world \<Rightarrow> bool \<times> world" where
  "main_runbin2c long intel c99 symbol prefix suffix global outpath w =
     (let success = True;
          offset = strlen outpath;
          success = (offset \<ge> 1);
          offset = offset - 1;
          (success, (len :: 'a word), w) =
             main_runbin2c_definition intel c99 symbol prefix suffix global outpath offset success w;
          (success, w) =
             (if global \<noteq> None
              then main_runbin2c_header c99 symbol prefix suffix global outpath offset success len w
              else (success, w));
          w = (if \<not> success
               then fputs_stderr
                      ''ERROR: failed to create output C file(s) from the input binary file.'' w
               else w)
      in (success, w))"

subsection \<open>What the macro builder returns\<close>

text \<open>The characters of an optional C string; none for the null pointer.\<close>

definition opt_cstr :: "string option \<Rightarrow> string" where
  "opt_cstr s = (case s of None \<Rightarrow> [] | Some p \<Rightarrow> cstr p)"

lemma upperizemacro_eq:
  "main_runbin2c_constructmacro_upperizemacro part macro = macro @ map toupper (cstr part)"
  by (induction part arbitrary: macro) (auto simp: cstr_def)

lemma unat_USHRT_MAX [simp]: "unat USHRT_MAX = 65535"
  by (simp add: USHRT_MAX_def)

lemma fragment_step:
  assumes "unat len = 65535 - n" and "n \<le> 65535"
  shows "(k < unat len) = (n + k < 65535)"
    and "n + k < 65535 \<Longrightarrow> unat (len - of_nat k :: 16 word) = 65535 - (n + k)"
proof -
  show "(k < unat len) = (n + k < 65535)" using assms by auto
  assume lt: "n + k < 65535"
  then have k: "k < 65536" by simp
  have "unat (of_nat k :: 16 word) = k"
    using k by (simp add: unat_of_nat take_bit_nat_eq_self)
  moreover have "of_nat k \<le> len"
    using lt assms \<open>unat (of_nat k :: 16 word) = k\<close> by (simp add: word_le_nat_alt)
  ultimately show "unat (len - of_nat k :: 16 word) = 65535 - (n + k)"
    using assms by (simp add: unat_sub)
qed


definition measured :: "bool \<Rightarrow> 16 word \<Rightarrow> nat \<Rightarrow> bool" where
  "measured s l n = ((s = (n < 65535)) \<and> (s \<longrightarrow> unat l = 65535 - n))"

lemma measured_init: "measured True USHRT_MAX 0"
  by (simp add: measured_def)

lemma measured_step:
  assumes "measured s l n"
  shows "measured (s \<and> k < unat l) (l - of_nat k) (n + k)"
proof (cases s)
  case True
  with assms have l: "unat l = 65535 - n" and n: "n \<le> 65535"
    by (simp_all add: measured_def)
  show ?thesis
    using True fragment_step [OF l n, of k]
    by (auto simp: measured_def)
next
  case False
  with assms show ?thesis by (auto simp: measured_def)
qed

lemma measured_final:
  assumes "measured s l n"
  shows "(s \<and> l \<ge> 1) = (n < 65535)" and "n < 65535 \<Longrightarrow> unat (USHRT_MAX - l) = n"
proof -
  have one: "(l \<ge> 1) = (1 \<le> unat l)"
    by (simp add: word_le_nat_alt)
  show "(s \<and> l \<ge> 1) = (n < 65535)"
    using assms unfolding one by (auto simp: measured_def)
  assume "n < 65535"
  with assms have l: "unat l = 65535 - n" by (simp add: measured_def)
  have "l \<le> USHRT_MAX"
    using l by (simp add: word_le_nat_alt)
  then show "unat (USHRT_MAX - l) = n"
    using l \<open>n < 65535\<close> by (simp add: unat_sub)
qed

definition macro_name :: "string option \<Rightarrow> string \<Rightarrow> string option \<Rightarrow> string" where
  "macro_name prefix core suffix = opt_cstr prefix @ cstr core @ opt_cstr suffix"

lemma measured_finish:
  assumes "measured S L n"
  shows "(case (if S \<and> 1 \<le> L then malloc (unat (USHRT_MAX - L) + 1) w else (False, w)) of
            (macro, w') \<Rightarrow> if macro then (Some X, w') else (None, w'))
         = (if n < 65535
            then (if \<not> crashed w \<and> next_ok w then Some X else None, snd (malloc (n + 1) w))
            else (None, w))"
  unfolding measured_final(1) [OF assms]
  using measured_final(2) [OF assms]
  by (auto simp: malloc_def)

lemma main_runbin2c_constructmacro_eq:
  "main_runbin2c_constructmacro prefix core suffix w =
     (if length (macro_name prefix core suffix) < 65535
      then (if \<not> crashed w \<and> next_ok w
            then Some (map toupper (macro_name prefix core suffix)) else None,
            snd (malloc (length (macro_name prefix core suffix) + 1) w))
      else (None, w))"
proof (cases prefix; cases suffix)
  assume p: "prefix = None" and s: "suffix = None"
  note m = measured_step [OF measured_init, of "strlen core"]
  show ?thesis
    unfolding main_runbin2c_constructmacro_def Let_def p s option.case prod.case
    by (subst measured_finish [OF m])
       (simp add: macro_name_def opt_cstr_def strlen_def upperizemacro_eq add.assoc)
next
  fix x assume p: "prefix = None" and s: "suffix = Some x"
  note m = measured_step [OF measured_step [OF measured_init, of "strlen core"], of "strlen x"]
  show ?thesis
    unfolding main_runbin2c_constructmacro_def Let_def p s option.case prod.case
    by (subst measured_finish [OF m])
       (simp add: macro_name_def opt_cstr_def strlen_def upperizemacro_eq add.assoc)
next
  fix y assume p: "prefix = Some y" and s: "suffix = None"
  note m = measured_step [OF measured_step [OF measured_init, of "strlen y"], of "strlen core"]
  show ?thesis
    unfolding main_runbin2c_constructmacro_def Let_def p s option.case prod.case
    by (subst measured_finish [OF m])
       (simp add: macro_name_def opt_cstr_def strlen_def upperizemacro_eq add.assoc)
next
  fix y x assume p: "prefix = Some y" and s: "suffix = Some x"
  note m = measured_step [OF measured_step [OF measured_step [OF measured_init, of "strlen y"],
              of "strlen core"], of "strlen x"]
  show ?thesis
    unfolding main_runbin2c_constructmacro_def Let_def p s option.case prod.case
    by (subst measured_finish [OF m])
       (simp add: macro_name_def opt_cstr_def strlen_def upperizemacro_eq add.assoc)
qed


lemma toupper_lower: "map toupper ''abcdefghijklmnopqrstuvwxyz'' = ''ABCDEFGHIJKLMNOPQRSTUVWXYZ''"
  by (simp add: toupper_def char_of_def)

lemma toupper_other:
  assumes "c \<notin> set ''abcdefghijklmnopqrstuvwxyz''"
  shows "toupper c = c"
proof (rule ccontr)
  assume "toupper c \<noteq> c"
  then have r: "97 \<le> (of_char c :: int)" "(of_char c :: int) \<le> 122"
    by (auto simp: toupper_def split: if_splits)
  then have "(of_char c :: int) \<in> of_char ` set ''abcdefghijklmnopqrstuvwxyz''"
    by simp presburger
  then obtain l where l: "l \<in> set ''abcdefghijklmnopqrstuvwxyz''"
    and eq: "(of_char c :: int) = of_char l"
    by blast
  from eq have "c = l" by (simp only: of_char_eq_iff)
  with l assms show False by simp
qed

text \<open>
  C6, as amended. The macro builder returns the concatenation of the parts that are
  present, each character passed through \<^verbatim>\<open>toupper\<close> (lower-case letters become
  upper-case, every other character is unchanged), and it fails exactly when the
  combined length with the terminator exceeds 65535 \<^emph>\<open>or the allocation of the
  buffer fails\<close>. When the allocation succeeds, \<open>s_\<close>, \<open>data\<close>, \<open>_len\<close> give
  \<open>S_DATA_LEN\<close>, and \<open>data\<close> alone gives \<open>DATA\<close>.
\<close>

theorem constructmacro_result:
  "fst (main_runbin2c_constructmacro prefix core suffix w) =
     (if length (macro_name prefix core suffix) + 1 \<le> 65535 \<and> \<not> crashed w \<and> next_ok w
      then Some (map toupper (macro_name prefix core suffix)) else None)
   \<and> map toupper ''abcdefghijklmnopqrstuvwxyz'' = ''ABCDEFGHIJKLMNOPQRSTUVWXYZ''
   \<and> (c \<notin> set ''abcdefghijklmnopqrstuvwxyz'' \<longrightarrow> toupper c = c)
   \<and> (\<not> crashed w \<and> next_ok w \<longrightarrow>
        fst (main_runbin2c_constructmacro (Some ''s_'') ''data'' (Some ''_len'') w)
          = Some ''S_DATA_LEN''
        \<and> fst (main_runbin2c_constructmacro None ''data'' None w) = Some ''DATA'')"
proof (intro conjI impI)
  show "fst (main_runbin2c_constructmacro prefix core suffix w) =
     (if length (macro_name prefix core suffix) + 1 \<le> 65535 \<and> \<not> crashed w \<and> next_ok w
      then Some (map toupper (macro_name prefix core suffix)) else None)"
    by (simp add: main_runbin2c_constructmacro_eq)
  show "map toupper ''abcdefghijklmnopqrstuvwxyz'' = ''ABCDEFGHIJKLMNOPQRSTUVWXYZ''"
    by (rule toupper_lower)
  show "toupper c = c" if "c \<notin> set ''abcdefghijklmnopqrstuvwxyz''"
    using that by (rule toupper_other)
  assume ok: "\<not> crashed w \<and> next_ok w"
  then show "fst (main_runbin2c_constructmacro (Some ''s_'') ''data'' (Some ''_len'') w)
          = Some ''S_DATA_LEN''"
    by (simp add: main_runbin2c_constructmacro_eq macro_name_def opt_cstr_def cstr_def
          NUL_def toupper_def char_of_def)
  from ok show "fst (main_runbin2c_constructmacro None ''data'' None w) = Some ''DATA''"
    by (simp add: main_runbin2c_constructmacro_eq macro_name_def opt_cstr_def cstr_def
          NUL_def toupper_def char_of_def)
qed

theorem constructmacro_result_witness:
  "CHR ''_'' \<notin> set ''abcdefghijklmnopqrstuvwxyz''
   \<and> toupper CHR ''_'' = CHR ''_''
   \<and> \<not> crashed (process [] False []) \<and> next_ok (process [] False [])
   \<and> fst (main_runbin2c_constructmacro (Some ''s_'') ''data'' (Some ''_len'') (process [] False []))
        = Some ''S_DATA_LEN''
   \<and> fst (main_runbin2c_constructmacro None ''data'' None (process [] False [])) = Some ''DATA''
   \<and> fst (main_runbin2c_constructmacro (Some ''g_'') ''a1.b'' None (process [] False []))
        = Some ''G_A1.B''"
  using constructmacro_result [of "Some ''g_''" "''a1.b''" None "process [] False []" "CHR ''_''"]
  by (simp add: next_ok_def macro_name_def opt_cstr_def cstr_def NUL_def toupper_def char_of_def)

theorem constructmacro_allocation_counterexample:
  "length (macro_name None ''data'' None) + 1 = 5
   \<and> fst (main_runbin2c_constructmacro None ''data'' None (process [] False [True])) = None"
  by (simp add: main_runbin2c_constructmacro_eq macro_name_def opt_cstr_def cstr_def
        NUL_def next_ok_def)

subsection \<open>The size literal of the header\<close>

lemma sprintf_hhd:
  "sprintf (CHR ''%'' # CHR ''h'' # CHR ''h'' # CHR ''d'' # fmt) args =
     decimal (sint (word_of_int (arg_num args) :: 8 word)) @ sprintf fmt (tl args)"
  by (subst sprintf.simps) simp

lemma sprintf_hd:
  "sprintf (CHR ''%'' # CHR ''h'' # CHR ''d'' # fmt) args =
     decimal (sint (word_of_int (arg_num args) :: 16 word)) @ sprintf fmt (tl args)"
  by (subst sprintf.simps) simp

lemma sprintf_ld:
  "sprintf (CHR ''%'' # CHR ''l'' # CHR ''d'' # fmt) args =
     decimal (arg_num args) @ sprintf fmt (tl args)"
  by (subst sprintf.simps) simp

lemma sprintf_d:
  "sprintf (CHR ''%'' # CHR ''d'' # fmt) args = decimal (arg_num args) @ sprintf fmt (tl args)"
  by (subst sprintf.simps) simp

lemma sprintf_s:
  "sprintf (CHR ''%'' # CHR ''s'' # fmt) args = arg_str args @ sprintf fmt (tl args)"
  by (subst sprintf.simps) simp

lemma sint_scast_small:
  assumes "- (2 ^ (LENGTH('b::len) - 1)) \<le> sint (x :: 'a::len word)"
    and "sint x < 2 ^ (LENGTH('b) - 1)"
  shows "sint (scast x :: 'b word) = sint x"
proof -
  have "sint (scast x :: 'b word) = signed_take_bit (LENGTH('b) - 1) (sint x)"
    by (simp add: signed_scast_eq)
  also have "\<dots> = sint x"
    using assms by (intro signed_take_bit_int_eq_self)
  finally show ?thesis .
qed

lemma sint_of_int_small:
  assumes "- (2 ^ (LENGTH('b::len) - 1)) \<le> (i :: int)" and "i < 2 ^ (LENGTH('b) - 1)"
  shows "sint (word_of_int i :: 'b word) = i"
proof -
  have "sint (word_of_int i :: 'b word) = signed_take_bit (LENGTH('b) - 1) i"
    by (simp add: signed_of_int)
  also have "\<dots> = i"
    using assms by (intro signed_take_bit_int_eq_self)
  finally show ?thesis .
qed

text \<open>The number a string of decimal digits denotes.\<close>

definition decimal_value :: "string \<Rightarrow> nat" where
  "decimal_value ds = foldl (\<lambda>a c. 10 * a + (of_char c - 48)) 0 ds"

lemma digit_char_value: "d < 10 \<Longrightarrow> (of_char (digit_char d) :: nat) - 48 = d"
proof -
  assume "d < 10"
  then have "d \<in> {0, 1, 2, 3, 4, 5, 6, 7, 8, 9}" by auto
  then show ?thesis by (auto simp: digit_char_def)
qed

lemma decimal_value_decimal_nat: "decimal_value (decimal_nat n) = n"
proof (induction n rule: decimal_nat.induct)
  case (1 n)
  show ?case
  proof (cases "n < 10")
    case True
    then show ?thesis
      by (subst decimal_nat.simps) (simp add: decimal_value_def digit_char_value)
  next
    case False
    with 1 have ih: "decimal_value (decimal_nat (n div 10)) = n div 10" by simp
    have "decimal_value (decimal_nat n) = 10 * decimal_value (decimal_nat (n div 10)) + n mod 10"
      using False
      by (subst decimal_nat.simps) (simp add: decimal_value_def digit_char_value)
    then show ?thesis using ih by simp
  qed
qed

text \<open>
  The tiers a build has, each with its format and the largest count it holds, from the
  narrowest: the 8-bit tier exists in a C99 build only.
\<close>

definition tiers :: "bool \<Rightarrow> 'a::len itself \<Rightarrow> (string \<times> int) list" where
  "tiers c99 long =
     (if c99 then [(''  %hhd'', SCHAR_MAX)] else [])
     @ [(''  %hd'', SHRT_MAX), (''  %d'', INT_MAX), (''  %ldl'', sint (LONG_MAX :: 'a word))]"

definition smallest_tier :: "(string \<times> int) list \<Rightarrow> int \<Rightarrow> string option" where
  "smallest_tier ts n = map_option fst (find (\<lambda>(fmt, mx). n \<le> mx) ts)"

lemma sint_le_LONG_MAX: "sint (x :: 'a::len word) \<le> sint (LONG_MAX :: 'a word)"
proof -
  have "sint x < 2 ^ (LENGTH('a) - 1)" by (rule sint_lt)
  moreover have "int (long_max TYPE('a)) = 2 ^ (LENGTH('a) - 1) - 1"
    by (simp add: long_max_def of_nat_diff)
  ultimately show ?thesis by (simp add: sint_LONG_MAX)
qed

lemma sizeliteral_text:
  assumes "0 \<le> sint (len :: 'a::len word)"
  shows "sprintf (fst (main_runbin2c_sizeliteral c99 len)) (snd (main_runbin2c_sizeliteral c99 len))
         = ''  '' @ decimal_nat (nat (sint len)) @ (if sint len \<le> INT_MAX then [] else ''l'')"
proof -
  have a: "sint (word_of_int (sint (scast len :: 8 word)) :: 8 word) = sint len"
    if "sint len \<le> 127"
    using that assms by (simp add: sint_scast_small)
  have b: "sint (word_of_int (sint (scast len :: 16 word)) :: 16 word) = sint len"
    if "sint len \<le> 32767"
    using that assms by (simp add: sint_scast_small)
  have c: "sint (scast len :: 32 word) = sint len"
    if "sint len \<le> 2147483647"
    using that assms by (simp add: sint_scast_small)
  show ?thesis
    using assms a b c
    by (simp add: main_runbin2c_sizeliteral_def SCHAR_MAX_def SHRT_MAX_def INT_MAX_def
          sprintf_plain sprintf_hhd sprintf_hd sprintf_d sprintf_ld sprintf_Nil arg_num_def
          decimal_def del: of_int_sint)
qed

lemma sizeliteral_tier:
  "smallest_tier (tiers c99 TYPE('a)) (sint (len :: 'a::len word))
     = Some (fst (main_runbin2c_sizeliteral c99 len))"
  using sint_le_LONG_MAX [of len]
  by (simp add: smallest_tier_def tiers_def main_runbin2c_sizeliteral_def)

subsection \<open>A run that fails to write the include line\<close>

lemmas runbin2c_defs =
  main_runbin2c_def main_runbin2c_definition_def main_runbin2c_header_def
  main_runbin2c_outputsymbol_def main_runbin2c_constructmacro_eq main_runbin2c_sizeliteral_def
  fopen_def fputs_def fflush_def fclose_def fputs_stderr_def strlen_def cstr_def to_int_def
  macro_name_def opt_cstr_def NUL_def sprintf_s sprintf_hhd sprintf_hd sprintf_d sprintf_ld
  arg_str_def SCHAR_MAX_def SHRT_MAX_def INT_MAX_def decimal_def toupper_def char_of_def
  NL_def DQ_def

lemma run_include_fails:
  "main_runbin2c TYPE(64) False True ''data'' None None (Some ''_len'') ''data. ''
      (process [] False [False, True])
   = (True,
      \<lparr>faults = [],
       trace =
         [Fopen ''data.c'' True,
          Fwrite ''data.c'' (''#include '' @ [DQ] @ ''data.h'' @ [DQ, NL, NL]) False,
          Fwrite ''data.c'' ''unsigned char const '' True,
          Malloc 4096 True,
          Fwrite ''data.c'' ('' };'' @ [NL]) True,
          Fflush ''data.c'' True,
          Fclose ''data.c'' True,
          Fopen ''data.h'' True,
          Malloc 5 True,
          Fwrite ''data.h'' (''#if !defined ( __DATA_H__ )'' @ [NL, NL] @ ''#define __DATA_H__''
                               @ [NL, NL] @ ''extern unsigned char const '') True,
          Fwrite ''data.h'' ''data'' True,
          Fwrite ''data.h'' (''[];'' @ [NL, NL] @ ''#define '') True,
          Malloc 9 True,
          Fwrite ''data.h'' ''DATA_LEN'' True,
          Fwrite ''data.h'' ''  0'' True,
          Fwrite ''data.h'' ([NL, NL] @ ''#endif'' @ [NL]) True,
          Fflush ''data.h'' True,
          Fclose ''data.h'' True],
       crashed = False, pending = [], broken = False, eof_ind = True, err_ind = False\<rparr>)"
  by (simp add: runbin2c_defs run_defs decimal_nat.simps [of 0])

text \<open>
  C9 on a run of the Global shape with symbol \<open>data\<close> and an empty input, where the
  definition file opens and the write of its \<^verbatim>\<open>#include\<close> line fails: the assignment
  \<^verbatim>\<open>success = buffer != NULL\<close> of line 759 forgets the failure, so the function goes
  on to open the header, writes it in full and reports success.
\<close>

theorem header_opened_after_failed_include:
  "(let (success, w) = main_runbin2c TYPE(64) False True ''data'' None None (Some ''_len'')
                         ''data. '' (process [] False [False, True])
    in success \<and>
       Fwrite ''data.c'' (''#include '' @ [DQ] @ ''data.h'' @ [DQ, NL, NL]) False \<in> set (trace w) \<and>
       Fopen ''data.h'' True \<in> set (trace w))"
  unfolding run_include_fails by simp

subsection \<open>A Global run that reports success\<close>

text \<open>The output calls leave the input stream as it is.\<close>

definition same_input :: "world \<Rightarrow> world \<Rightarrow> bool" where
  "same_input w w' =
     (pending w' = pending w \<and> broken w' = broken w \<and> eof_ind w' = eof_ind w
      \<and> err_ind w' = err_ind w)"

lemma same_input_refl [simp]: "same_input w w"
  by (simp add: same_input_def)

lemma same_input_trans: "same_input w w1 \<Longrightarrow> same_input w1 w2 \<Longrightarrow> same_input w w2"
  by (simp add: same_input_def)

lemma fwrite_text_input: "same_input w (snd (fwrite_text s outfile w))"
  by (simp add: fwrite_text_def same_input_def record_call_def split: option.splits)

lemma fputs_input: "fputs s outfile w = (e, w') \<Longrightarrow> same_input w w'"
  using fwrite_text_input [of w "cstr s" outfile] by (simp add: fputs_def)

lemma fprintf_input: "fprintf outfile fmt args w = (e, w') \<Longrightarrow> same_input w w'"
  using fwrite_text_input [of w "sprintf fmt args" outfile] by (simp add: fprintf_def)

lemma fopen_input: "fopen path w = (outfile, w') \<Longrightarrow> same_input w w'"
  by (auto simp: fopen_def same_input_def record_call_def split: if_splits)

lemma outputsymbol_input:
  "main_runbin2c_outputsymbol prefix symbol suffix outfile w = (r, w') \<Longrightarrow> same_input w w'"
  unfolding main_runbin2c_outputsymbol_def Let_def
  by (auto split: prod.splits option.splits dest!: fputs_input simp: same_input_def)

lemma fputs_null: "fputs s None w = (e, w') \<Longrightarrow> e < 0"
  by (auto simp: fputs_def fwrite_text_def split: if_splits)

lemma main_runbin2c_encode_crashed:
  "crashed w \<Longrightarrow> main_runbin2c_encode intel c99 outfile w = (s, len, w') \<Longrightarrow> \<not> s"
  by (auto simp: main_runbin2c_encode_def malloc_def Let_def split: prod.splits)

text \<open>
  The block that creates the definition file, cut at the encoder block: what comes
  before it (lines 656 to 722) and what comes after it (lines 826 to 848).
\<close>

definition definition_opening ::
  "string \<Rightarrow> string option \<Rightarrow> string option \<Rightarrow> string option \<Rightarrow> string
     \<Rightarrow> nat \<Rightarrow> bool \<Rightarrow> world \<Rightarrow> string option \<times> bool \<times> world" where
  "definition_opening symbol prefix suffix global outpath offset success w =
     (let outfile = None;
          (outfile, success, w) =
             (if success
              then (let (outfile, w) =
                          fopen (outpath[offset := (if global \<noteq> None then CHR ''c'' else CHR ''h'')]) w
                    in (outfile, outfile \<noteq> None, w))
              else (outfile, success, w));
          (success, w) =
             (if success
              then (let (error, w) =
                          (if global \<noteq> None
                           then fprintf outfile (''#include '' @ [DQ] @ ''%s.h'' @ [DQ, NL, NL])
                                  [Str symbol] w
                           else fputs ''static '' outfile w);
                        success = (success \<and> error \<ge> 0);
                        (error, w) = fputs ''unsigned char const '' outfile w;
                        success = (success \<and> error \<ge> 0)
                    in (success, w))
              else (success, w));
          (success, w) =
             (if success
              then (let (result, w) = main_runbin2c_outputsymbol prefix symbol suffix outfile w;
                        error = to_int result;
                        success = (success \<and> error \<ge> 0);
                        (error, w) = fputs ''[] = { '' outfile w;
                        success = (success \<and> error \<ge> 0)
                    in (success, w))
              else (success, w))
      in (outfile, success, w))"

definition definition_closing :: "string option \<Rightarrow> bool \<Rightarrow> world \<Rightarrow> bool \<times> world" where
  "definition_closing outfile success w =
     (let (success, w) =
             (if success
              then (let (error, w) = fputs ('' };'' @ [NL]) outfile w in (error \<ge> 0, w))
              else (success, w));
          (success, w) =
             (if outfile \<noteq> None
              then (let (error, w) = fflush outfile w;
                        success = (success \<and> error \<ge> 0);
                        (error, w) = fclose outfile w;
                        success = (success \<and> error \<ge> 0)
                    in (success, w))
              else (success, w))
      in (success, w))"

lemma case_prod_case_prod:
  "case_prod g (case_prod f p) = case_prod (\<lambda>a b. case_prod g (f a b)) p"
  by (cases p) simp

lemma main_runbin2c_definition_eq:
  "main_runbin2c_definition intel c99 symbol prefix suffix global outpath offset success w =
     (let (outfile, s, w) = definition_opening symbol prefix suffix global outpath offset success w;
          (s, len, w) = main_runbin2c_encode intel c99 outfile w;
          (s, w) = definition_closing outfile s w
      in (s, len, w))"
  unfolding main_runbin2c_definition_def definition_opening_def definition_closing_def Let_def
  by (simp only: case_prod_case_prod prod.case)

lemma definition_opening_input:
  "definition_opening symbol prefix suffix global outpath offset s0 w = (outfile, s, w')
     \<Longrightarrow> same_input w w'"
  unfolding definition_opening_def Let_def
  by (auto split: prod.splits if_splits
        dest!: fputs_input fprintf_input fopen_input outputsymbol_input
        simp: same_input_def)

lemma definition_closing_success:
  "definition_closing outfile s w = (True, w') \<Longrightarrow> s \<and> outfile \<noteq> None"
  unfolding definition_closing_def Let_def
  by (auto split: prod.splits if_splits dest: fputs_null)

lemma main_runbin2c_definition_success:
  assumes "main_runbin2c_definition intel c99 symbol prefix suffix global outpath offset s0 w
             = (True, (len :: 'a::len word), w')"
  shows "\<exists>f w1 w2. same_input w w1 \<and> main_runbin2c_encode intel c99 (Some f) w1 = (True, len, w2)"
proof -
  obtain outfile s1 w1 where o: "definition_opening symbol prefix suffix global outpath offset s0 w
      = (outfile, s1, w1)" by (cases "definition_opening symbol prefix suffix global outpath offset s0 w")
  obtain s2 len2 w2 where e: "main_runbin2c_encode intel c99 outfile w1 = (s2, (len2 :: 'a word), w2)"
    by (cases "main_runbin2c_encode intel c99 outfile w1 :: bool \<times> 'a word \<times> world")
  from assms have c: "definition_closing outfile s2 w2 = (True, w')" and l: "len2 = len"
    by (simp_all add: main_runbin2c_definition_eq o e split: prod.splits)
  from definition_closing_success [OF c] obtain f where "s2" "outfile = Some f" by auto
  with e l definition_opening_input [OF o] show ?thesis by auto
qed

text \<open>The count that a successful definition block returns is the length of the input.\<close>

lemma main_runbin2c_definition_count:
  assumes "fresh w"
    and "main_runbin2c_definition intel c99 symbol prefix suffix global outpath offset s0 w
           = (True, (len :: 'a::len word), w')"
  shows "len = of_nat (length (pending w))" and "sint len = int (length (pending w))"
proof -
  from main_runbin2c_definition_success [OF assms(2)]
  obtain f w1 w2 where i: "same_input w w1"
    and e: "main_runbin2c_encode intel c99 (Some f) w1 = (True, len, w2)" by blast
  have alive: "\<not> crashed w1" using main_runbin2c_encode_crashed [OF _ e] by blast
  with assms(1) i have w1: "fresh w1" by (simp add: fresh_def same_input_def)
  from main_runbin2c_encode_run [OF alive e]
  obtain k where k: "pending w2 = drop k (pending w1)" "k \<le> length (pending w1)"
    and len: "len = of_nat k" and cnt: "count_ok (0 :: 'a word) k"
    by auto
  from main_runbin2c_encode_success(2) [OF w1 e] k have all: "k = length (pending w)"
    using i by (simp add: same_input_def)
  with len show "len = of_nat (length (pending w))" by simp
  from cnt have "k \<le> long_max TYPE('a)" by (simp add: count_ok_zero)
  then show "sint len = int (length (pending w))"
    unfolding len all [symmetric] by (rule sint_of_nat_small)
qed

text \<open>
  The block that creates the header, cut in three: up to the text \<open>#define\<close> (lines
  859 to 923), the two macros' names and the size literal (lines 925 to 986), and the
  flush and the close (lines 990 to 1003).
\<close>

definition header_opening ::
  "string \<Rightarrow> string option \<Rightarrow> string option \<Rightarrow> string \<Rightarrow> nat \<Rightarrow> bool \<Rightarrow> world
     \<Rightarrow> string option \<times> bool \<times> world" where
  "header_opening symbol prefix suffix outpath offset success w =
     (let outfile = None;
          (outfile, success, w) =
             (if success
              then (let (outfile, w) = fopen (outpath[offset := CHR ''h'']) w
                    in (outfile, outfile \<noteq> None, w))
              else (outfile, success, w));
          (success, w) =
             (if success
              then (let (macro, w) = main_runbin2c_constructmacro None symbol None w;
                        success = (macro \<noteq> None)
                    in if success
                       then (let (error, w) =
                                   fprintf outfile
                                     (''#if !defined ( __%s_H__ )'' @ [NL, NL] @ ''#define __%s_H__''
                                        @ [NL, NL] @ ''extern unsigned char const '')
                                     [Str (the macro), Str (the macro)] w
                             in (error \<ge> 0, w))
                       else (success, w))
              else (success, w));
          (success, w) =
             (if success
              then (let (result, w) = main_runbin2c_outputsymbol prefix symbol suffix outfile w;
                        error = to_int result;
                        success = (success \<and> error \<ge> 0);
                        (error, w) = fputs (''[];'' @ [NL, NL] @ ''#define '') outfile w;
                        success = (success \<and> error \<ge> 0)
                    in (success, w))
              else (success, w))
      in (outfile, success, w))"

definition header_define ::
  "bool \<Rightarrow> string \<Rightarrow> string option \<Rightarrow> string option \<Rightarrow> string option \<Rightarrow> bool \<Rightarrow> 'a::len word
     \<Rightarrow> world \<Rightarrow> bool \<times> world" where
  "header_define c99 symbol prefix global outfile success len w =
     (if success
      then (let (macro, w) = main_runbin2c_constructmacro prefix symbol global w;
                success = (macro \<noteq> None);
                (success, w) =
                   (if success
                    then (let (error, w) = fputs (the macro) outfile w in (error \<ge> 0, w))
                    else (success, w))
            in if success
               then (let (error, w) =
                           fprintf outfile (fst (main_runbin2c_sizeliteral c99 len))
                             (snd (main_runbin2c_sizeliteral c99 len)) w;
                         success = (success \<and> error \<ge> 0);
                         (error, w) = fputs ([NL, NL] @ ''#endif'' @ [NL]) outfile w;
                         success = (success \<and> error \<ge> 0)
                     in (success, w))
               else (success, w))
      else (success, w))"

definition file_closing :: "string option \<Rightarrow> bool \<Rightarrow> world \<Rightarrow> bool \<times> world" where
  "file_closing outfile success w =
     (if outfile \<noteq> None
      then (let (error, w) = fflush outfile w;
                success = (success \<and> error \<ge> 0);
                (error, w) = fclose outfile w;
                success = (success \<and> error \<ge> 0)
            in (success, w))
      else (success, w))"

lemma main_runbin2c_header_eq:
  "main_runbin2c_header c99 symbol prefix suffix global outpath offset success len w =
     (let (outfile, s, w) = header_opening symbol prefix suffix outpath offset success w;
          (s, w) = header_define c99 symbol prefix global outfile s len w;
          (s, w) = file_closing outfile s w
      in (s, w))"
  unfolding main_runbin2c_header_def header_opening_def header_define_def file_closing_def Let_def
  by (simp only: case_prod_case_prod prod.case)

text \<open>What a successful output call adds to the trace.\<close>

lemma fwrite_text_ok:
  "fwrite_text s outfile w = (e, w') \<Longrightarrow> 0 \<le> e
     \<Longrightarrow> \<exists>f. outfile = Some f \<and> trace w' = trace w @ [Fwrite f s True]"
  by (auto simp: fwrite_text_def record_call_def split: if_splits option.splits)

lemma fputs_ok:
  "fputs s outfile w = (e, w') \<Longrightarrow> 0 \<le> e
     \<Longrightarrow> \<exists>f. outfile = Some f \<and> trace w' = trace w @ [Fwrite f (cstr s) True]"
  unfolding fputs_def by (rule fwrite_text_ok)

lemma fprintf_ok:
  "fprintf outfile fmt args w = (e, w') \<Longrightarrow> 0 \<le> e
     \<Longrightarrow> \<exists>f. outfile = Some f \<and> trace w' = trace w @ [Fwrite f (sprintf fmt args) True]"
  unfolding fprintf_def by (rule fwrite_text_ok)

lemma fflush_ok:
  "fflush outfile w = (e, w') \<Longrightarrow> 0 \<le> e
     \<Longrightarrow> \<exists>f. outfile = Some f \<and> trace w' = trace w @ [Fflush f True]"
  by (auto simp: fflush_def record_call_def split: if_splits option.splits)

lemma fclose_ok:
  "fclose outfile w = (e, w') \<Longrightarrow> 0 \<le> e
     \<Longrightarrow> \<exists>f. outfile = Some f \<and> trace w' = trace w @ [Fclose f True]"
  by (auto simp: fclose_def record_call_def split: if_splits option.splits)

lemma fopen_ok: "fopen path w = (Some f, w') \<Longrightarrow> f = cstr path"
  by (auto simp: fopen_def split: if_splits)

lemma constructmacro_ok:
  "main_runbin2c_constructmacro prefix core suffix w = (Some m, w')
     \<Longrightarrow> m = map toupper (macro_name prefix core suffix)
         \<and> trace w' = trace w @ [Malloc (length (macro_name prefix core suffix) + 1) True]"
  by (auto simp: main_runbin2c_constructmacro_eq malloc_def record_call_def split: if_splits)

lemma header_opening_success:
  assumes "header_opening symbol prefix suffix outpath offset s w = (outfile, True, w')"
  shows "s \<and> outfile = Some (cstr (outpath[offset := CHR ''h'']))
         \<and> (\<exists>cs. trace w' = cs @ [Fwrite (cstr (outpath[offset := CHR ''h'']))
                                      (''[];'' @ [NL, NL] @ ''#define '') True])"
proof -
  let ?h = "cstr (outpath[offset := CHR ''h''])"
  have dfn: "cstr (''[];'' @ [NL, NL] @ ''#define '') = ''[];'' @ [NL, NL] @ ''#define ''"
    by (simp add: cstr_def NL_def NUL_def)
  obtain o1 s1 w1 where b1:
    "(if s then (let (outfile, w) = fopen (outpath[offset := CHR ''h'']) w
                 in (outfile, outfile \<noteq> None, w))
      else (None, s, w)) = (o1, s1, w1)"
    by (rule prod_cases3)
  have o1: "s1 \<longrightarrow> s \<and> o1 = Some ?h"
    using b1 by (auto split: if_splits prod.splits dest: fopen_ok)
  obtain s2 w2 where b2:
    "(if s1
      then (let (macro, w) = main_runbin2c_constructmacro None symbol None w1;
                success = (macro \<noteq> None)
            in if success
               then (let (error, w) =
                           fprintf o1
                             (''#if !defined ( __%s_H__ )'' @ [NL, NL] @ ''#define __%s_H__''
                                @ [NL, NL] @ ''extern unsigned char const '')
                             [Str (the macro), Str (the macro)] w
                     in (error \<ge> 0, w))
               else (success, w))
      else (s1, w1)) = (s2, w2)"
    by (rule prod.exhaust)
  have s2: "s2 \<longrightarrow> s1" using b2 by (auto split: if_splits)
  obtain s3 w3 where b3:
    "(if s2
      then (let (result, w) = main_runbin2c_outputsymbol prefix symbol suffix o1 w2;
                error = to_int result;
                success = (s2 \<and> error \<ge> 0);
                (error, w) = fputs (''[];'' @ [NL, NL] @ ''#define '') o1 w;
                success = (success \<and> error \<ge> 0)
            in (success, w))
      else (s2, w2)) = (s3, w3)"
    by (rule prod.exhaust)
  have s3: "s3 \<longrightarrow> s2 \<and> (\<exists>f cs. o1 = Some f \<and> trace w3 = cs @ [Fwrite f (''[];'' @ [NL, NL] @ ''#define '') True])"
    using b3 dfn by (auto simp: Let_def split: if_splits prod.splits dest!: fputs_ok)
  have "header_opening symbol prefix suffix outpath offset s w = (o1, s3, w3)"
    unfolding header_opening_def Let_def b1 [unfolded Let_def] prod.case
      b2 [unfolded Let_def] b3 [unfolded Let_def] ..
  with assms have "outfile = o1" "s3" "w' = w3" by simp_all
  with o1 s2 s3 show ?thesis by auto
qed

lemma toupper_NUL: "toupper c = NUL \<longleftrightarrow> c = NUL"
proof (cases "97 \<le> (of_char c :: int) \<and> (of_char c :: int) \<le> 122")
  case True
  then have "(of_char (toupper c) :: int) = of_char c - 32"
    by (simp add: toupper_def)
  with True have "(of_char (toupper c) :: int) \<noteq> of_char NUL" "(of_char c :: int) \<noteq> of_char NUL"
    by (simp_all add: NUL_def)
  then show ?thesis by auto
next
  case False
  then show ?thesis by (auto simp: toupper_def)
qed

lemma cstr_macro: "cstr (map toupper (macro_name prefix core suffix)) = map toupper (macro_name prefix core suffix)"
proof -
  have "NUL \<notin> set (cstr x)" for x
    unfolding cstr_def by (auto dest: set_takeWhileD)
  then have "NUL \<notin> set (macro_name prefix core suffix)"
    by (auto simp: macro_name_def opt_cstr_def split: option.splits)
  then have "\<forall>c \<in> set (map toupper (macro_name prefix core suffix)). c \<noteq> NUL"
    by (auto simp: toupper_NUL)
  then show ?thesis
    unfolding cstr_def by (simp only: takeWhile_eq_all_conv)
qed

lemma header_define_success:
  assumes "header_define c99 symbol prefix global outfile s len w = (True, w')"
  shows "s \<and> (\<exists>f. outfile = Some f \<and>
           trace w' = trace w @
             [Malloc (length (macro_name prefix symbol global) + 1) True,
              Fwrite f (map toupper (macro_name prefix symbol global)) True,
              Fwrite f (sprintf (fst (main_runbin2c_sizeliteral c99 len))
                          (snd (main_runbin2c_sizeliteral c99 len))) True,
              Fwrite f ([NL, NL] @ ''#endif'' @ [NL]) True])"
proof -
  have dfn: "cstr ([NL, NL] @ ''#endif'' @ [NL]) = [NL, NL] @ ''#endif'' @ [NL]"
    by (simp add: cstr_def NL_def NUL_def)
  from assms have s: s by (auto simp: header_define_def split: if_splits)
  obtain m w1 where c: "main_runbin2c_constructmacro prefix symbol global w = (m, w1)"
    by (rule prod.exhaust)
  from assms s c obtain name where m: "m = Some name"
    by (cases m) (auto simp: header_define_def Let_def)
  note k = constructmacro_ok [OF c [unfolded m]]
  obtain e2 w2 where p: "fputs name outfile w1 = (e2, w2)" by (rule prod.exhaust)
  from assms s c m p have e2: "0 \<le> e2"
    by (auto simp: header_define_def Let_def split: if_splits)
  obtain e3 w3 where q: "fprintf outfile (fst (main_runbin2c_sizeliteral c99 len))
                           (snd (main_runbin2c_sizeliteral c99 len)) w2 = (e3, w3)"
    by (rule prod.exhaust)
  obtain e4 w4 where r: "fputs ([NL, NL] @ ''#endif'' @ [NL]) outfile w3 = (e4, w4)"
    by (rule prod.exhaust)
  from assms s c m p e2 q r have e: "0 \<le> e3" "0 \<le> e4" "w' = w4"
    by (auto simp: header_define_def Let_def split: if_splits)
  from fputs_ok [OF p e2] fprintf_ok [OF q e(1)] fputs_ok [OF r e(2)] k e(3) s
  show ?thesis by (auto simp: cstr_macro dfn [simplified])
qed

lemma file_closing_success:
  assumes "file_closing outfile s w = (True, w')"
  shows "s \<and> (outfile = None \<and> w' = w
              \<or> (\<exists>f. outfile = Some f \<and> trace w' = trace w @ [Fflush f True, Fclose f True]))"
proof (cases outfile)
  case None
  with assms show ?thesis by (simp add: file_closing_def)
next
  case (Some f)
  obtain e1 w1 where p: "fflush outfile w = (e1, w1)" by (rule prod.exhaust)
  obtain e2 w2 where q: "fclose outfile w1 = (e2, w2)" by (rule prod.exhaust)
  from assms Some p q have e: s "0 \<le> e1" "0 \<le> e2" "w' = w2"
    by (auto simp: file_closing_def Let_def split: if_splits)
  from fflush_ok [OF p e(2)] fclose_ok [OF q e(3)] e(1,4) Some show ?thesis by auto
qed

text \<open>
  A header block that reports success was entered with the flag set, and the last
  calls of its trace are these: the text up to \<open>#define\<close>, the allocation and the write
  of the size macro's name, the size literal for the count it was given, the closing
  lines, the flush and the close.
\<close>

lemma main_runbin2c_header_success:
  assumes "main_runbin2c_header c99 symbol prefix suffix global outpath offset s len w = (True, w')"
  shows "s \<and> (\<exists>cs. trace w' = cs @
           [Fwrite (cstr (outpath[offset := CHR ''h''])) (''[];'' @ [NL, NL] @ ''#define '') True,
            Malloc (length (macro_name prefix symbol global) + 1) True,
            Fwrite (cstr (outpath[offset := CHR ''h'']))
              (map toupper (macro_name prefix symbol global)) True,
            Fwrite (cstr (outpath[offset := CHR ''h'']))
              (sprintf (fst (main_runbin2c_sizeliteral c99 len))
                 (snd (main_runbin2c_sizeliteral c99 len))) True,
            Fwrite (cstr (outpath[offset := CHR ''h''])) ([NL, NL] @ ''#endif'' @ [NL]) True,
            Fflush (cstr (outpath[offset := CHR ''h''])) True,
            Fclose (cstr (outpath[offset := CHR ''h''])) True])"
proof -
  obtain outfile s1 w1 where o: "header_opening symbol prefix suffix outpath offset s w
      = (outfile, s1, w1)" by (rule prod_cases3)
  obtain s2 w2 where d: "header_define c99 symbol prefix global outfile s1 len w1 = (s2, w2)"
    by (rule prod.exhaust)
  from assms have c: "file_closing outfile s2 w2 = (True, w')"
    by (simp add: main_runbin2c_header_eq o d)
  from file_closing_success [OF c] have s2: s2 by simp
  from header_define_success [OF d [unfolded s2 [THEN eqTrueI]]] have s1: s1 by simp
  from header_opening_success [OF o [unfolded s1 [THEN eqTrueI]]]
    header_define_success [OF d [unfolded s2 [THEN eqTrueI]]]
    file_closing_success [OF c]
  show ?thesis by auto
qed

text \<open>
  A process in which no call fails: every output call succeeds and leaves such a
  process behind.
\<close>

definition calm :: "world \<Rightarrow> bool" where
  "calm w = (faults w = [] \<and> \<not> crashed w)"

lemma calm_record_call [simp]: "calm w \<Longrightarrow> calm (record_call c w)"
  by (simp add: calm_def record_call_def)

lemma record_call_input [simp]:
  "pending (record_call c w) = pending w"
  "broken (record_call c w) = broken w"
  "eof_ind (record_call c w) = eof_ind w"
  "err_ind (record_call c w) = err_ind w"
  by (simp_all add: record_call_def)

lemma calm_fopen: "calm w \<Longrightarrow> fopen path w = (Some (cstr path), record_call (Fopen (cstr path) True) w)"
  by (simp add: calm_def fopen_def next_ok_def)

lemma calm_fputs:
  "calm w \<Longrightarrow> fputs s (Some f) w = (int (length (cstr s)), record_call (Fwrite f (cstr s) True) w)"
  by (simp add: calm_def fputs_def fwrite_text_def next_ok_def)

lemma calm_fprintf:
  "calm w \<Longrightarrow> fprintf (Some f) fmt args w
     = (int (length (sprintf fmt args)), record_call (Fwrite f (sprintf fmt args) True) w)"
  by (simp add: calm_def fprintf_def fwrite_text_def next_ok_def)

lemma calm_fflush: "calm w \<Longrightarrow> fflush (Some f) w = (0, record_call (Fflush f True) w)"
  by (simp add: calm_def fflush_def next_ok_def)

lemma calm_fclose: "calm w \<Longrightarrow> fclose (Some f) w = (0, record_call (Fclose f True) w)"
  by (simp add: calm_def fclose_def next_ok_def)

lemma calm_constructmacro:
  "calm w \<Longrightarrow> length (macro_name prefix core suffix) < 65535 \<Longrightarrow>
     main_runbin2c_constructmacro prefix core suffix w
       = (Some (map toupper (macro_name prefix core suffix)),
          record_call (Malloc (length (macro_name prefix core suffix) + 1) True) w)"
  by (simp add: calm_def main_runbin2c_constructmacro_eq malloc_def next_ok_def)

lemma calm_outputsymbol:
  assumes "calm w"
  shows "fst (main_runbin2c_outputsymbol prefix symbol suffix (Some f) w)"
    and "calm (snd (main_runbin2c_outputsymbol prefix symbol suffix (Some f) w))"
    and "same_input w (snd (main_runbin2c_outputsymbol prefix symbol suffix (Some f) w))"
  using assms unfolding main_runbin2c_outputsymbol_def Let_def
  by (cases prefix; cases suffix; simp add: calm_fputs same_input_def)+

lemmas calm_calls = calm_fopen calm_fputs calm_fprintf calm_fflush calm_fclose calm_constructmacro
  calm_outputsymbol(1,2)

lemma calm_definition_opening:
  assumes "calm w"
  shows "fst (definition_opening symbol prefix suffix global outpath offset True w)
           = Some (cstr (outpath[offset := (if global \<noteq> None then CHR ''c'' else CHR ''h'')]))"
    and "calm (snd (snd (definition_opening symbol prefix suffix global outpath offset True w)))"
  using assms unfolding definition_opening_def Let_def
  by (simp_all add: calm_calls case_prod_beta to_int_def)

lemma calm_definition_closing:
  assumes "calm w"
  shows "fst (definition_closing (Some f) True w)"
    and "calm (snd (definition_closing (Some f) True w))"
  using assms unfolding definition_closing_def Let_def
  by (simp_all add: calm_calls case_prod_beta)

lemma calm_encode:
  assumes "calm w" and "fresh w" and "\<not> broken w"
    and "length (pending w) \<le> long_max TYPE('a::len)"
    and run: "main_runbin2c_encode intel c99 (Some f) w = (s, (len :: 'a word), w')"
  shows "s \<and> calm w'"
proof -
  have f: "faults w = []" and alive: "\<not> crashed w" using assms(1) by (simp_all add: calm_def)
  have "s = (next_ok w \<and> \<not> broken w
              \<and> list_all (\<lambda>b. b) (outcomes (length (pending w)) (tl (faults w)))
              \<and> count_ok (0 :: 'a word) (length (pending w)))"
    using assms(2) run by (rule main_runbin2c_encode_success(1))
  then have s using assms(3,4) f by (simp add: next_ok_def outcomes_all count_ok_zero)
  moreover from main_runbin2c_encode_run [OF alive run] have "calm w'"
    using f by (auto simp: calm_def)
  ultimately show ?thesis by simp
qed

lemma calm_definition:
  assumes "calm w" and "fresh w" and "\<not> broken w"
    and "length (pending w) \<le> long_max TYPE('a::len)"
    and run: "main_runbin2c_definition intel c99 symbol prefix suffix global outpath offset True w
                = (s, (len :: 'a word), w')"
  shows "s \<and> calm w'"
proof -
  obtain outfile s1 w1 where o: "definition_opening symbol prefix suffix global outpath offset True w
      = (outfile, s1, w1)" by (rule prod_cases3)
  from calm_definition_opening [OF assms(1), of symbol prefix suffix global outpath offset]
  obtain f where f: "outfile = Some f" and c1: "calm w1" by (simp add: o)
  have i: "same_input w w1" using o by (rule definition_opening_input)
  obtain s2 len2 w2 where e: "main_runbin2c_encode intel c99 (Some f) w1 = (s2, (len2 :: 'a word), w2)"
    by (rule prod_cases3)
  have w1: "fresh w1" "\<not> broken w1" "length (pending w1) \<le> long_max TYPE('a)"
    using assms(2,3,4) i c1 by (simp_all add: fresh_def same_input_def calm_def)
  from calm_encode [OF c1 w1 e] have s2: s2 and c2: "calm w2" by simp_all
  from run have "definition_closing (Some f) s2 w2 = (s, w')"
    by (simp add: main_runbin2c_definition_eq o f e split: prod.splits)
  with calm_definition_closing [OF c2, of f] s2 show ?thesis by simp
qed

lemma calm_header_opening:
  assumes "calm w" and "length (macro_name None symbol None) < 65535"
  shows "fst (header_opening symbol prefix suffix outpath offset True w) \<noteq> None"
    and "fst (snd (header_opening symbol prefix suffix outpath offset True w))"
    and "calm (snd (snd (header_opening symbol prefix suffix outpath offset True w)))"
  using assms unfolding header_opening_def Let_def
  by (simp_all add: calm_calls case_prod_beta to_int_def)

lemma calm_header_define:
  assumes "calm w" and "length (macro_name prefix symbol global) < 65535"
  shows "fst (header_define c99 symbol prefix global (Some f) True len w)"
    and "calm (snd (header_define c99 symbol prefix global (Some f) True len w))"
  using assms unfolding header_define_def Let_def
  by (simp_all add: calm_calls case_prod_beta)

lemma calm_file_closing:
  assumes "calm w"
  shows "fst (file_closing (Some f) True w)"
  using assms unfolding file_closing_def Let_def
  by (simp add: calm_calls case_prod_beta)

lemma calm_header:
  assumes "calm w" and "length (macro_name None symbol None) < 65535"
    and "length (macro_name prefix symbol global) < 65535"
  shows "fst (main_runbin2c_header c99 symbol prefix suffix global outpath offset True len w)"
proof -
  obtain outfile s1 w1 where o: "header_opening symbol prefix suffix outpath offset True w
      = (outfile, s1, w1)" by (rule prod_cases3)
  from calm_header_opening [OF assms(1,2), of prefix suffix outpath offset]
  obtain f where f: "outfile = Some f" and s1: s1 and c1: "calm w1" by (auto simp: o)
  obtain s2 w2 where d: "header_define c99 symbol prefix global (Some f) True len w1 = (s2, w2)"
    by (rule prod.exhaust)
  from calm_header_define [OF c1 assms(3), of c99 f len] have s2: s2 and c2: "calm w2"
    by (simp_all add: d)
  from calm_file_closing [OF c2, of f] show ?thesis
    using s1 s2 by (simp add: main_runbin2c_header_eq o f d case_prod_beta)
qed

text \<open>A Global run in which no call fails reports success, whatever the input.\<close>

lemma calm_run:
  assumes "calm w" and "fresh w" and "\<not> broken w"
    and "length (pending w) \<le> long_max TYPE('a::len)"
    and "1 \<le> strlen outpath"
    and "length (macro_name None symbol None) < 65535"
    and "length (macro_name prefix symbol (Some marker)) < 65535"
  shows "fst (main_runbin2c TYPE('a) intel c99 symbol prefix suffix (Some marker) outpath w)"
proof -
  obtain s1 len w1 where d:
    "main_runbin2c_definition intel c99 symbol prefix suffix (Some marker) outpath
       (strlen outpath - 1) True w = (s1, (len :: 'a word), w1)"
    by (rule prod_cases3)
  from calm_definition [OF assms(1-4) d] have s1: s1 and c1: "calm w1" by simp_all
  from calm_header [OF c1 assms(6,7), of c99 suffix outpath "strlen outpath - 1" len]
  show ?thesis
    using assms(5) s1 by (simp add: main_runbin2c_def Let_def d [simplified] case_prod_beta)
qed

lemma run_global_5_171_16:
  "main_runbin2c TYPE(64) False True ''data'' None None (Some ''_len'') ''data. ''
      (process [5, 171, 16] False [])
   = (True,
      \<lparr>faults = [],
       trace =
         [Fopen ''data.c'' True,
          Fwrite ''data.c'' (''#include '' @ [DQ] @ ''data.h'' @ [DQ, NL, NL]) True,
          Fwrite ''data.c'' ''unsigned char const '' True,
          Fwrite ''data.c'' ''data'' True,
          Fwrite ''data.c'' ''[] = { '' True,
          Malloc 4096 True,
          Fwrite ''data.c'' ''0x5u'' True,
          Fwrite ''data.c'' '', 0xABu'' True,
          Fwrite ''data.c'' '', 0x10u'' True,
          Fwrite ''data.c'' ('' };'' @ [NL]) True,
          Fflush ''data.c'' True,
          Fclose ''data.c'' True,
          Fopen ''data.h'' True,
          Malloc 5 True,
          Fwrite ''data.h'' (''#if !defined ( __DATA_H__ )'' @ [NL, NL] @ ''#define __DATA_H__''
                               @ [NL, NL] @ ''extern unsigned char const '') True,
          Fwrite ''data.h'' ''data'' True,
          Fwrite ''data.h'' (''[];'' @ [NL, NL] @ ''#define '') True,
          Malloc 9 True,
          Fwrite ''data.h'' ''DATA_LEN'' True,
          Fwrite ''data.h'' ''  3'' True,
          Fwrite ''data.h'' ([NL, NL] @ ''#endif'' @ [NL]) True,
          Fflush ''data.h'' True,
          Fclose ''data.h'' True],
       crashed = False, pending = [], broken = False, eof_ind = True, err_ind = False\<rparr>)"
  by (simp add: runbin2c_defs run_defs decimal_nat.simps [of 3])

text \<open>
  C3, as amended. A Global run of \<^verbatim>\<open>main_runbin2c\<close> in which no call fails reports
  success, for every input no longer than \<^verbatim>\<open>LONG_MAX\<close>. Whenever a Global run reports
  success, the last four texts the header has received are the line that ends in \<open>#define\<close>, the name
  of the size macro, the size literal and the closing lines, and the size literal is
  the one \<^verbatim>\<open>fprintf\<close> renders for the count the encoder returned, which is the number
  of bytes of the input: two spaces and that number in decimal, followed by the suffix
  \<open>l\<close> in the widest tier only. The width chosen is the smallest tier \<^emph>\<open>of the build\<close>
  whose range holds the count: of 8-bit, 16-bit, 32-bit signed and \<^verbatim>\<open>long\<close> in a C99
  build, and of 16-bit, 32-bit signed and \<^verbatim>\<open>long\<close> in a build before C99, which has
  no 8-bit tier.
\<close>

theorem global_run_size_macro:
  "(fresh w \<and> faults w = [] \<and> \<not> broken w \<and> length (pending w) \<le> long_max TYPE('a::len)
      \<and> 1 \<le> strlen outpath \<and> length (macro_name None symbol None) < 65535
      \<and> length (macro_name prefix symbol (Some marker)) < 65535
    \<longrightarrow> fst (main_runbin2c TYPE('a) intel c99 symbol prefix suffix (Some marker) outpath w))
   \<and> (fresh w \<longrightarrow>
   main_runbin2c TYPE('a) intel c99 symbol prefix suffix (Some marker) outpath w = (True, w')
   \<longrightarrow>
     (\<exists>ts. writes (cstr (outpath[strlen outpath - 1 := CHR ''h''])) (trace w') =
        ts @ [''[];'' @ [NL, NL] @ ''#define '',
              map toupper (macro_name prefix symbol (Some marker)),
              sprintf (fst (main_runbin2c_sizeliteral c99 (of_nat (length (pending w)) :: 'a word)))
                (snd (main_runbin2c_sizeliteral c99 (of_nat (length (pending w)) :: 'a word))),
              [NL, NL] @ ''#endif'' @ [NL]])
     \<and> sprintf (fst (main_runbin2c_sizeliteral c99 (of_nat (length (pending w)) :: 'a word)))
          (snd (main_runbin2c_sizeliteral c99 (of_nat (length (pending w)) :: 'a word)))
        = ''  '' @ decimal_nat (length (pending w))
            @ (if int (length (pending w)) \<le> INT_MAX then [] else ''l'')
     \<and> decimal_value (decimal_nat (length (pending w))) = length (pending w)
     \<and> smallest_tier (tiers c99 TYPE('a)) (int (length (pending w)))
         = Some (fst (main_runbin2c_sizeliteral c99 (of_nat (length (pending w)) :: 'a word))))"
proof (rule conjI; intro impI)
  assume a: "fresh w \<and> faults w = [] \<and> \<not> broken w \<and> length (pending w) \<le> long_max TYPE('a)
      \<and> 1 \<le> strlen outpath \<and> length (macro_name None symbol None) < 65535
      \<and> length (macro_name prefix symbol (Some marker)) < 65535"
  then have "calm w" by (simp add: calm_def fresh_def)
  with a show "fst (main_runbin2c TYPE('a) intel c99 symbol prefix suffix (Some marker) outpath w)"
    by (intro calm_run) simp_all
next
  let ?n = "length (pending w)"
  let ?h = "cstr (outpath[strlen outpath - 1 := CHR ''h''])"
  assume w: "fresh w"
    and run: "main_runbin2c TYPE('a) intel c99 symbol prefix suffix (Some marker) outpath w = (True, w')"
  obtain s1 len w1 where d:
    "main_runbin2c_definition intel c99 symbol prefix suffix (Some marker) outpath
       (strlen outpath - 1) (1 \<le> strlen outpath) w = (s1, (len :: 'a word), w1)"
    by (rule prod_cases3)
  obtain s2 w2 where h:
    "main_runbin2c_header c99 symbol prefix suffix (Some marker) outpath (strlen outpath - 1)
       s1 len w1 = (s2, w2)"
    by (rule prod.exhaust)
  from run have s2: s2 and w': "w' = w2"
    by (auto simp: main_runbin2c_def Let_def d [simplified] h [simplified] split: if_splits)
  from main_runbin2c_header_success [OF h [unfolded s2 [THEN eqTrueI]]]
  obtain cs where s1: s1 and t: "trace w2 = cs @
           [Fwrite ?h (''[];'' @ [NL, NL] @ ''#define '') True,
            Malloc (length (macro_name prefix symbol (Some marker)) + 1) True,
            Fwrite ?h (map toupper (macro_name prefix symbol (Some marker))) True,
            Fwrite ?h (sprintf (fst (main_runbin2c_sizeliteral c99 len))
                         (snd (main_runbin2c_sizeliteral c99 len))) True,
            Fwrite ?h ([NL, NL] @ ''#endif'' @ [NL]) True,
            Fflush ?h True, Fclose ?h True]"
    by blast
  note c = main_runbin2c_definition_count [OF w d [unfolded s1 [THEN eqTrueI]]]
  have "writes ?h (trace w') = writes ?h cs @
          [''[];'' @ [NL, NL] @ ''#define '',
           map toupper (macro_name prefix symbol (Some marker)),
           sprintf (fst (main_runbin2c_sizeliteral c99 len)) (snd (main_runbin2c_sizeliteral c99 len)),
           [NL, NL] @ ''#endif'' @ [NL]]"
    unfolding w' t by (simp add: writes_append)
  then have a: "\<exists>ts. writes ?h (trace w') =
        ts @ [''[];'' @ [NL, NL] @ ''#define '',
              map toupper (macro_name prefix symbol (Some marker)),
              sprintf (fst (main_runbin2c_sizeliteral c99 (of_nat ?n :: 'a word)))
                (snd (main_runbin2c_sizeliteral c99 (of_nat ?n :: 'a word))),
              [NL, NL] @ ''#endif'' @ [NL]]"
    unfolding c(1) by blast
  have pos: "0 \<le> sint len" using c(2) by simp
  have b: "sprintf (fst (main_runbin2c_sizeliteral c99 (of_nat ?n :: 'a word)))
          (snd (main_runbin2c_sizeliteral c99 (of_nat ?n :: 'a word)))
        = ''  '' @ decimal_nat ?n @ (if int ?n \<le> INT_MAX then [] else ''l'')"
    using sizeliteral_text [OF pos, of c99] unfolding c(2) by (simp add: c(1))
  have e: "smallest_tier (tiers c99 TYPE('a)) (int ?n)
         = Some (fst (main_runbin2c_sizeliteral c99 (of_nat ?n :: 'a word)))"
    using sizeliteral_tier [of c99 len] unfolding c(2) by (simp add: c(1))
  from a b e show "(\<exists>ts. writes ?h (trace w') =
        ts @ [''[];'' @ [NL, NL] @ ''#define '',
              map toupper (macro_name prefix symbol (Some marker)),
              sprintf (fst (main_runbin2c_sizeliteral c99 (of_nat ?n :: 'a word)))
                (snd (main_runbin2c_sizeliteral c99 (of_nat ?n :: 'a word))),
              [NL, NL] @ ''#endif'' @ [NL]])
     \<and> sprintf (fst (main_runbin2c_sizeliteral c99 (of_nat ?n :: 'a word)))
          (snd (main_runbin2c_sizeliteral c99 (of_nat ?n :: 'a word)))
        = ''  '' @ decimal_nat ?n @ (if int ?n \<le> INT_MAX then [] else ''l'')
     \<and> decimal_value (decimal_nat ?n) = ?n
     \<and> smallest_tier (tiers c99 TYPE('a)) (int ?n)
         = Some (fst (main_runbin2c_sizeliteral c99 (of_nat ?n :: 'a word)))"
    by (simp only: decimal_value_decimal_nat simp_thms)
qed

theorem global_run_size_macro_witness:
  "fresh (process [5, 171, 16] False [])
   \<and> fst (main_runbin2c TYPE(64) False True ''data'' None None (Some ''_len'') ''data. ''
            (process [5, 171, 16] False []))
   \<and> writes ''data.h'' (trace (snd (main_runbin2c TYPE(64) False True ''data'' None None
         (Some ''_len'') ''data. '' (process [5, 171, 16] False []))))
       = [''#if !defined ( __DATA_H__ )'' @ [NL, NL] @ ''#define __DATA_H__''
            @ [NL, NL] @ ''extern unsigned char const '',
          ''data'', ''[];'' @ [NL, NL] @ ''#define '', ''DATA_LEN'', ''  3'',
          [NL, NL] @ ''#endif'' @ [NL]]
   \<and> sprintf (fst (main_runbin2c_sizeliteral True (3 :: 64 word)))
        (snd (main_runbin2c_sizeliteral True (3 :: 64 word))) = ''  3''
   \<and> smallest_tier (tiers True TYPE(64)) 3 = Some ''  %hhd''"
  using global_run_size_macro
    [of "process [5, 171, 16] False []" "''data. ''" "''data''" None "''_len''" False True None
        "snd (main_runbin2c TYPE(64) False True ''data'' None None (Some ''_len'') ''data. ''
               (process [5, 171, 16] False []))", where 'a = 64]
  by (simp add: run_global_5_171_16 decimal_nat.simps [of 3]
        decimal_nat.simps [of "Suc (Suc (Suc 0))"] digit_char_def
        main_runbin2c_sizeliteral_def SCHAR_MAX_def INT_MAX_def smallest_tier_def tiers_def)

theorem sizeliteral_c89_counterexample:
  "smallest_tier (tiers True TYPE(64)) (sint (5 :: 64 word)) = Some ''  %hhd''
   \<and> fst (main_runbin2c_sizeliteral False (5 :: 64 word)) = ''  %hd''"
  by (simp add: smallest_tier_def tiers_def main_runbin2c_sizeliteral_def SCHAR_MAX_def
        SHRT_MAX_def)

section \<open>Path names\<close>

text \<open>
  \<^verbatim>\<open>MAIN_PATHDELIMITER\<close> is the back-slash on the Windows targets the source recognises
  and the slash elsewhere: \<open>win\<close> says which. A pointer into a path is an index into
  the characters stored from the start of the path.
\<close>

definition MAIN_PATHDELIMITER :: "bool \<Rightarrow> char" where
  "MAIN_PATHDELIMITER win = (if win then CHR 0x5C else CHR ''/'')"

text \<open>
  The loop of \<^verbatim>\<open>main_findname\<close> (lines 307 to 322) on the state
  \<open>(path, length, delimiter)\<close>, and the function (lines 287 to 327), which returns the
  pointer to the file name.
\<close>

lemma unat_countdown: "(len :: 16 word) > 0 \<Longrightarrow> unat (len - 1) < unat len"
proof -
  assume "len > 0"
  then have "len \<noteq> 0" by (simp add: word_greater_zero_iff)
  then have "unat len \<noteq> 0" by (simp add: unat_eq_zero)
  moreover from \<open>len \<noteq> 0\<close> have "unat (len - 1) = unat len - 1" by (rule unat_minus_one)
  ultimately show ?thesis by simp
qed

function main_findname_scan ::
  "bool \<Rightarrow> string \<Rightarrow> nat \<Rightarrow> 16 word \<Rightarrow> 16 word \<Rightarrow> nat \<times> 16 word \<times> 16 word" where
  "main_findname_scan win mem path len delimiter =
     (if len > 0
      then (if deref mem path = MAIN_PATHDELIMITER win
            then main_findname_scan win mem (path + 1) (len - 1) ((USHRT_MAX - len) + 1)
            else if deref mem path = NUL
              then (path, len, delimiter)
              else main_findname_scan win mem (path + 1) (len - 1) delimiter)
      else (path, len, delimiter))"
  by pat_completeness auto
termination
  by (relation "measure (\<lambda>(win, mem, path, len, delimiter). unat len)")
     (auto simp: unat_countdown)

declare main_findname_scan.simps [simp del]

definition main_findname :: "bool \<Rightarrow> string \<Rightarrow> nat" where
  "main_findname win mem =
     (let (path, len, delimiter) = main_findname_scan win mem 0 USHRT_MAX 0
      in nat (int path - ((uint USHRT_MAX - uint len) - uint delimiter)))"

text \<open>
  \<^verbatim>\<open>main_shortenname\<close> (lines 1042 to 1106): the loop on
  \<open>(path, length, terminus, delimiter)\<close>; the function returns the path as it has
  overwritten it, and the pointer to the file name in it.
\<close>

function main_shortenname_scan ::
  "bool \<Rightarrow> string \<Rightarrow> nat \<Rightarrow> 16 word \<Rightarrow> 16 word \<Rightarrow> 16 word
     \<Rightarrow> nat \<times> 16 word \<times> 16 word \<times> 16 word" where
  "main_shortenname_scan win mem path len terminus delimiter =
     (if len > 0
      then (if deref mem path = CHR ''.''
            then main_shortenname_scan win mem (path + 1) (len - 1) len delimiter
            else if deref mem path = MAIN_PATHDELIMITER win
              then main_shortenname_scan win mem (path + 1) (len - 1) 0 ((USHRT_MAX - len) + 1)
              else if deref mem path = NUL
                then (path, len, terminus, delimiter)
                else main_shortenname_scan win mem (path + 1) (len - 1) terminus delimiter)
      else (path, len, terminus, delimiter))"
  by pat_completeness auto
termination
  by (relation "measure (\<lambda>(win, mem, path, len, terminus, delimiter). unat len)")
     (auto simp: unat_countdown)

declare main_shortenname_scan.simps [simp del]

definition main_shortenname :: "bool \<Rightarrow> string \<Rightarrow> string \<times> nat" where
  "main_shortenname win mem =
     (let (path, len, terminus, delimiter) = main_shortenname_scan win mem 0 USHRT_MAX 0 0;
          path = nat (int path - ((uint USHRT_MAX - uint len) - uint delimiter))
      in if terminus > 0
         then (let terminus = (USHRT_MAX - terminus) - delimiter
               in (mem[path + unat terminus := NUL], path))
         else (mem, path))"

text \<open>
  \<^verbatim>\<open>main_constructoutpath\<close> (lines 1137 to 1240): the scan on
  \<open>(inpath, length, offset)\<close>, the copy loop on \<open>(inpath, length, outpath)\<close> where
  \<open>outpath\<close> is what has been written so far, and the function. The result is the
  new path, \<open>None\<close> for the null pointer.
\<close>

function main_constructoutpath_scan ::
  "bool \<Rightarrow> string \<Rightarrow> nat \<Rightarrow> 16 word \<Rightarrow> 16 word \<Rightarrow> nat \<times> 16 word \<times> 16 word" where
  "main_constructoutpath_scan win mem inpath len offset =
     (if len > 0
      then (if deref mem inpath = CHR ''.''
            then main_constructoutpath_scan win mem (inpath + 1) (len - 1) len
            else if deref mem inpath = MAIN_PATHDELIMITER win
              then main_constructoutpath_scan win mem (inpath + 1) (len - 1) USHRT_MAX
              else if deref mem inpath = NUL
                then (inpath, len, offset)
                else main_constructoutpath_scan win mem (inpath + 1) (len - 1) offset)
      else (inpath, len, offset))"
  by pat_completeness auto
termination
  by (relation "measure (\<lambda>(win, mem, inpath, len, offset). unat len)")
     (auto simp: unat_countdown)

declare main_constructoutpath_scan.simps [simp del]

function main_constructoutpath_copy :: "string \<Rightarrow> nat \<Rightarrow> 16 word \<Rightarrow> string \<Rightarrow> string" where
  "main_constructoutpath_copy mem inpath len outpath =
     (if len > 0
      then main_constructoutpath_copy mem (inpath + 1) (len - 1) (outpath @ [deref mem inpath])
      else outpath)"
  by pat_completeness auto
termination
  by (relation "measure (\<lambda>(mem, inpath, len, outpath). unat len)")
     (auto simp: unat_countdown)

declare main_constructoutpath_copy.simps [simp del]

definition main_constructoutpath :: "bool \<Rightarrow> string \<Rightarrow> world \<Rightarrow> string option \<times> world" where
  "main_constructoutpath win mem w =
     (let (inpath, len, offset) = main_constructoutpath_scan win mem 0 USHRT_MAX USHRT_MAX
      in if deref mem inpath = NUL
         then (let inpath = nat (int inpath - (uint USHRT_MAX - uint len));
                   len = (if offset \<noteq> USHRT_MAX then offset else len)
               in if unat len \<ge> 2 + 1
                  then (let len = USHRT_MAX - len;
                            (outpath, w) = malloc (unat len + 2 + 1) w
                        in if outpath
                           then (Some (main_constructoutpath_copy mem inpath len [] @ ''. ''), w)
                           else (None, w))
                  else (None, w))
         else (None, w))"

subsection \<open>What the scan of main_constructoutpath computes\<close>

text \<open>
  The index of the extension dot, by a forward scan: the last \<open>.\<close> that no delimiter
  follows. \<open>offset_of\<close> is how the source's count-down represents it.
\<close>

fun dots :: "bool \<Rightarrow> string \<Rightarrow> nat \<Rightarrow> nat option \<Rightarrow> nat option" where
  "dots win [] i acc = acc"
| "dots win (c # cs) i acc =
     dots win cs (Suc i)
       (if c = CHR ''.'' then Some i else if c = MAIN_PATHDELIMITER win then None else acc)"

definition ext_dot :: "bool \<Rightarrow> string \<Rightarrow> nat option" where
  "ext_dot win p = dots win p 0 None"

definition offset_of :: "nat option \<Rightarrow> 16 word" where
  "offset_of d = (case d of None \<Rightarrow> USHRT_MAX | Some i \<Rightarrow> of_nat (65535 - i))"

lemma word16_of_nat: "n \<le> 65535 \<Longrightarrow> unat (of_nat n :: 16 word) = n"
  by (simp add: unat_of_nat take_bit_nat_eq_self)

lemma countdown_word:
  assumes "unat (len :: 16 word) = 65535 - i" and "i \<le> 65534"
  shows "len > 0" and "unat (len - 1) = 65535 - Suc i" and "len = of_nat (65535 - i)"
proof -
  from assms have nz: "len \<noteq> 0" by (auto simp: unat_eq_zero [symmetric])
  then show "len > 0" by (simp add: word_greater_zero_iff)
  from nz have "unat (len - 1) = unat len - 1" by (rule unat_minus_one)
  with assms show "unat (len - 1) = 65535 - Suc i" by simp
  have "unat (of_nat (65535 - i) :: 16 word) = 65535 - i"
    by (rule word16_of_nat) simp
  then have "unat len = unat (of_nat (65535 - i) :: 16 word)"
    using assms by (simp only:)
  then show "len = of_nat (65535 - i)" by (simp only: word_unat_eq_iff)
qed

lemma deref_append_here [simp]: "deref (pre @ c # cs) (length pre) = c"
  by (simp add: deref_def)

lemma deref_end [simp]: "deref mem (length mem) = NUL"
  by (simp add: deref_def)

lemma delimiter_not_NUL [simp]: "MAIN_PATHDELIMITER win \<noteq> NUL" "NUL \<noteq> MAIN_PATHDELIMITER win"
  "CHR ''.'' \<noteq> NUL" "NUL \<noteq> CHR ''.''" "MAIN_PATHDELIMITER win \<noteq> CHR ''.''"
  by (simp_all add: MAIN_PATHDELIMITER_def NUL_def)

text \<open>
  The scan over the characters \<open>cs\<close> that follow \<open>pre\<close>: it stops at the terminator
  behind them, or at the 65535th character of the path when \<open>rest\<close> goes on.
\<close>

lemma main_constructoutpath_scan_run:
  assumes "NUL \<notin> set cs" and "length pre + length cs \<le> 65535"
    and "rest = [] \<or> length pre + length cs = 65535"
    and "unat len = 65535 - length pre"
  shows "main_constructoutpath_scan win (pre @ cs @ rest) (length pre) len (offset_of acc) =
           (length pre + length cs, len - of_nat (length cs),
            offset_of (dots win cs (length pre) acc))"
  using assms
proof (induction cs arbitrary: pre len acc)
  case Nil
  show ?case
  proof (cases "len > 0")
    case True
    then have "unat len \<noteq> 0" by (simp add: word_greater_zero_iff unat_eq_zero)
    then have "rest = []" using Nil.prems by auto
    then show ?thesis
      by (subst main_constructoutpath_scan.simps) (simp add: True)
  next
    case False
    then show ?thesis
      by (subst main_constructoutpath_scan.simps) simp
  qed
next
  case (Cons c cs)
  have i: "length pre \<le> 65534" using Cons.prems by simp
  note cw = countdown_word [OF Cons.prems(4) i]
  have c: "c \<noteq> NUL" using Cons.prems by auto
  have here: "deref (pre @ (c # cs) @ rest) (length pre) = c"
    using deref_append_here [of pre c "cs @ rest"] by simp
  have ih: "main_constructoutpath_scan win (pre @ (c # cs) @ rest) (Suc (length pre)) (len - 1) (offset_of a) =
           (length pre + length (c # cs), len - of_nat (length (c # cs)),
            offset_of (dots win cs (Suc (length pre)) a))" for a
  proof -
    have "main_constructoutpath_scan win ((pre @ [c]) @ cs @ rest) (length (pre @ [c])) (len - 1) (offset_of a) =
           (length (pre @ [c]) + length cs, (len - 1) - of_nat (length cs),
            offset_of (dots win cs (length (pre @ [c])) a))"
      using Cons.prems cw by (intro Cons.IH) auto
    then show ?thesis by (simp add: diff_diff_eq)
  qed
  have dot: "len = offset_of (Some (length pre))"
    unfolding offset_of_def option.case by (rule cw(3))
  have none: "USHRT_MAX = offset_of None"
    by (simp add: offset_of_def)
  have step: "main_constructoutpath_scan win (pre @ (c # cs) @ rest) (length pre) len (offset_of acc) =
      (if c = CHR ''.''
       then main_constructoutpath_scan win (pre @ (c # cs) @ rest) (Suc (length pre)) (len - 1) (offset_of (Some (length pre)))
       else if c = MAIN_PATHDELIMITER win
       then main_constructoutpath_scan win (pre @ (c # cs) @ rest) (Suc (length pre)) (len - 1) (offset_of None)
       else main_constructoutpath_scan win (pre @ (c # cs) @ rest) (Suc (length pre)) (len - 1) (offset_of acc))"
    apply (subst main_constructoutpath_scan.simps)
    apply (simp only: cw(1) if_True here c if_False dot [symmetric] none [symmetric])
    apply simp
    done
  show ?case
    unfolding step ih by simp
qed

lemma main_constructoutpath_copy_run:
  "unat len = k \<Longrightarrow> i + k \<le> length mem \<Longrightarrow>
     main_constructoutpath_copy mem i len out = out @ take k (drop i mem)"
proof (induction k arbitrary: i len out)
  case 0
  then have "len = 0" by (simp add: unat_eq_zero)
  then show ?case by (subst main_constructoutpath_copy.simps) simp
next
  case (Suc k)
  then have nz: "len \<noteq> 0" by auto
  then have pos: "len > 0" by (simp add: word_greater_zero_iff)
  have "unat (len - 1) = unat len - 1" using nz by (rule unat_minus_one)
  then have k: "unat (len - 1) = k" using Suc.prems by simp
  have i: "i < length mem" using Suc.prems by simp
  have d: "deref mem i = mem ! i" using i by (simp add: deref_def)
  have ih: "main_constructoutpath_copy mem (Suc i) (len - 1) (out @ [mem ! i]) =
              (out @ [mem ! i]) @ take k (drop (Suc i) mem)"
    using k Suc.prems by (intro Suc.IH) auto
  have "take (Suc k) (drop i mem) = mem ! i # take k (drop (Suc i) mem)"
    using i by (simp add: Cons_nth_drop_Suc [symmetric])
  then show ?case
    apply (subst main_constructoutpath_copy.simps)
    apply (simp only: pos if_True d)
    apply (simp add: ih)
    done
qed

text \<open>
  The number of characters of the input that the function keeps: those before the
  extension dot. A dot at the very start of the path is represented by the same value
  of \<open>offset\<close> as no dot at all.
\<close>

definition kept :: "bool \<Rightarrow> string \<Rightarrow> nat" where
  "kept win p =
     (case ext_dot win p of None \<Rightarrow> length p | Some i \<Rightarrow> if i = 0 then length p else i)"

lemma dots_bound:
  "(\<And>j. acc = Some j \<Longrightarrow> j < i) \<Longrightarrow> dots win cs i acc = Some k \<Longrightarrow> k < i + length cs"
proof (induction cs arbitrary: i acc)
  case Nil
  then show ?case by simp
next
  case (Cons c cs)
  let ?a = "if c = CHR ''.'' then Some i else if c = MAIN_PATHDELIMITER win then None else acc"
  have "k < Suc i + length cs"
  proof (rule Cons.IH [of ?a])
    fix j assume "?a = Some j"
    then show "j < Suc i" using Cons.prems(1) by (auto split: if_splits intro: less_SucI)
  next
    show "dots win cs (Suc i) ?a = Some k" using Cons.prems(2) by simp
  qed
  then show ?case by simp
qed

lemma ext_dot_bound: "ext_dot win p = Some k \<Longrightarrow> k < length p"
  unfolding ext_dot_def using dots_bound [of None 0 win p k] by simp

lemma kept_le: "kept win p \<le> length p"
  unfolding kept_def using ext_dot_bound [of win p]
  by (auto split: option.splits intro: less_imp_le)

lemma main_constructoutpath_eq:
  assumes nul: "NUL \<notin> set p" and len: "length p \<le> 65535"
  shows "main_constructoutpath win p w =
           (if kept win p \<le> 65532
            then ((if \<not> crashed w \<and> next_ok w then Some (take (kept win p) p @ ''. '') else None),
                  snd (malloc (kept win p + 3) w))
            else (None, w))"
proof -
  have scan: "main_constructoutpath_scan win p 0 USHRT_MAX USHRT_MAX =
          (length p, USHRT_MAX - of_nat (length p), offset_of (ext_dot win p))"
    using main_constructoutpath_scan_run [of p "[]" "[]" USHRT_MAX win None] nul len
    by (simp add: offset_of_def ext_dot_def)
  have ulen: "unat (USHRT_MAX - of_nat (length p) :: 16 word) = 65535 - length p"
  proof -
    have a: "unat (of_nat (length p) :: 16 word) = length p"
      using len by (intro word16_of_nat) simp
    then have "(of_nat (length p) :: 16 word) \<le> USHRT_MAX"
      using len by (simp add: word_le_nat_alt)
    then show ?thesis using a by (simp add: unat_sub)
  qed
  define l :: "16 word" where
    "l = (if offset_of (ext_dot win p) \<noteq> USHRT_MAX then offset_of (ext_dot win p)
          else USHRT_MAX - of_nat (length p))"
  have kl: "kept win p \<le> length p" by (rule kept_le)
  have ul: "unat l = 65535 - kept win p"
  proof (cases "ext_dot win p")
    case None
    then show ?thesis by (simp add: l_def offset_of_def kept_def ulen)
  next
    case (Some i)
    have i: "i < length p" using Some by (rule ext_dot_bound)
    have u: "unat (of_nat (65535 - i) :: 16 word) = 65535 - i"
      by (rule word16_of_nat) simp
    show ?thesis
    proof (cases "i = 0")
      case True
      have "offset_of (ext_dot win p) = USHRT_MAX"
        using Some True by (simp add: offset_of_def USHRT_MAX_def)
      then have "l = USHRT_MAX - of_nat (length p)" by (simp add: l_def)
      then show ?thesis using Some True ulen by (simp add: kept_def)
    next
      case False
      have "(of_nat (65535 - i) :: 16 word) \<noteq> USHRT_MAX"
      proof
        assume "(of_nat (65535 - i) :: 16 word) = USHRT_MAX"
        then have "unat (of_nat (65535 - i) :: 16 word) = unat USHRT_MAX" by simp
        then show False using u False by simp
      qed
      then show ?thesis using Some False u
        by (simp add: l_def offset_of_def kept_def del: of_nat_diff)
    qed
  qed
  have le: "l \<le> USHRT_MAX" by (simp add: word_le_nat_alt ul)
  have usub: "unat (USHRT_MAX - l) = kept win p"
    using le kl len by (simp add: unat_sub ul)
  have three: "(3 \<le> unat l) = (kept win p \<le> 65532)"
    using ul by auto
  have three': "(2 + 1 \<le> unat l) = (kept win p \<le> 65532)"
    using ul by auto
  have copy: "main_constructoutpath_copy p 0 (USHRT_MAX - l) [] = take (kept win p) p"
    using main_constructoutpath_copy_run [of "USHRT_MAX - l" "kept win p" 0 p "[]"] usub kl
    by simp
  have zero: "nat (int (length p) - (uint USHRT_MAX - uint (USHRT_MAX - of_nat (length p) :: 16 word))) = 0"
    using ulen len by (simp add: uint_nat)
  show ?thesis
    unfolding main_constructoutpath_def scan prod.case Let_def deref_end zero l_def [symmetric]
    apply (simp only: three three' usub copy if_True)
    apply (simp add: malloc_def numeral_3_eq_3 split: prod.splits)
    done
qed

lemma main_constructoutpath_too_long:
  assumes nul: "NUL \<notin> set p" and len: "65535 < length p"
  shows "main_constructoutpath win p w = (None, w)"
proof -
  define cs where "cs = take 65535 p"
  define rest where "rest = drop 65535 p"
  have p: "p = cs @ rest" by (simp add: cs_def rest_def)
  have l: "length cs = 65535" using len by (simp add: cs_def)
  have "NUL \<notin> set cs" using nul by (auto simp: cs_def dest: in_set_takeD)
  then have scan: "main_constructoutpath_scan win p 0 USHRT_MAX USHRT_MAX =
          (65535, USHRT_MAX - of_nat 65535, offset_of (dots win cs 0 None))"
    using main_constructoutpath_scan_run [of cs "[]" rest USHRT_MAX win None] l
    by (simp add: offset_of_def p)
  have "deref p 65535 = p ! 65535" using len by (simp add: deref_def)
  moreover have "p ! 65535 \<in> set p" using len by (intro nth_mem)
  ultimately have "deref p 65535 \<noteq> NUL" using nul by metis
  then show ?thesis
    unfolding main_constructoutpath_def scan prod.case Let_def by simp
qed

lemma dots_append:
  "dots win (xs @ [c]) i acc =
     (if c = CHR ''.'' then Some (i + length xs)
      else if c = MAIN_PATHDELIMITER win then None else dots win xs i acc)"
  by (induction xs arbitrary: i acc) simp_all

lemma ext_dot_snoc:
  "ext_dot win (xs @ [c]) =
     (if c = CHR ''.'' then Some (length xs)
      else if c = MAIN_PATHDELIMITER win then None else ext_dot win xs)"
  by (simp add: ext_dot_def dots_append)

text \<open>
  The extension dot is the last full stop of the path that neither a delimiter nor
  another full stop follows.
\<close>

lemma ext_dot_Some_iff:
  "ext_dot win p = Some i \<longleftrightarrow>
     i < length p \<and> p ! i = CHR ''.'' \<and>
     (\<forall>j. i < j \<and> j < length p \<longrightarrow> p ! j \<noteq> CHR ''.'' \<and> p ! j \<noteq> MAIN_PATHDELIMITER win)"
proof (induction p rule: rev_induct)
  case Nil
  then show ?case by (simp add: ext_dot_def)
next
  case (snoc c xs)
  show ?case
  proof (cases "c = CHR ''.''")
    case True
    have "i = length xs" if "i < Suc (length xs)"
      and "\<forall>j. i < j \<and> j < Suc (length xs) \<longrightarrow> (xs @ [c]) ! j \<noteq> CHR ''.''"
    proof (rule ccontr)
      assume "i \<noteq> length xs"
      then have "i < length xs" using that(1) by simp
      then have "(xs @ [c]) ! length xs \<noteq> CHR ''.''" using that(2) by blast
      then show False using True by simp
    qed
    then show ?thesis using True by (auto simp: ext_dot_snoc)
  next
    case dot: False
    show ?thesis
    proof (cases "c = MAIN_PATHDELIMITER win")
      case True
      have False if "i < Suc (length xs)" and "(xs @ [c]) ! i = CHR ''.''"
        and "\<forall>j. i < j \<and> j < Suc (length xs) \<longrightarrow> (xs @ [c]) ! j \<noteq> MAIN_PATHDELIMITER win"
      proof -
        have "i \<noteq> length xs" using that(2) dot by auto
        then have "i < length xs" using that(1) by simp
        then have "(xs @ [c]) ! length xs \<noteq> MAIN_PATHDELIMITER win" using that(3) by blast
        then show False using True by simp
      qed
      then show ?thesis using True dot by (auto simp: ext_dot_snoc)
    next
      case False
      have a: "(\<forall>j. i < j \<and> j < Suc (length xs) \<longrightarrow> P j) \<longleftrightarrow>
               (\<forall>j. i < j \<and> j < length xs \<longrightarrow> P j) \<and> (i < length xs \<longrightarrow> P (length xs))" for P
        by (auto simp: less_Suc_eq)
      show ?thesis
        using False dot snoc.IH
        by (auto simp: ext_dot_snoc a nth_append)
    qed
  qed
qed

definition stem_length :: "bool \<Rightarrow> string \<Rightarrow> nat" where
  "stem_length win p = (case ext_dot win p of None \<Rightarrow> length p | Some i \<Rightarrow> i)"

lemma kept_stem_length: "ext_dot win p \<noteq> Some 0 \<Longrightarrow> kept win p = stem_length win p"
  by (auto simp: kept_def stem_length_def split: option.splits)

lemma dots_plain:
  "CHR ''.'' \<notin> set cs \<Longrightarrow> MAIN_PATHDELIMITER win \<notin> set cs \<Longrightarrow> dots win cs i acc = acc"
  by (induction cs arbitrary: i) auto

lemma main_constructoutpath_long_stem:
  assumes "NUL \<notin> set p" and "CHR ''.'' \<notin> set p" and "MAIN_PATHDELIMITER win \<notin> set p"
    and "length p \<le> 65535" and "65532 < length p"
  shows "fst (main_constructoutpath win p w) = None"
proof -
  have "ext_dot win p = None"
    unfolding ext_dot_def using assms(2,3) by (rule dots_plain)
  then have "kept win p = length p" by (simp add: kept_def)
  then show ?thesis
    using main_constructoutpath_eq [OF assms(1,4), of win w] assms(5) by simp
qed

lemma main_constructoutpath_one_longer:
  "fst (main_constructoutpath False (''a.'' @ replicate 65533 CHR ''b'') (process [] False []))
     = Some ''a. ''"
proof -
  let ?p = "''a.'' @ replicate 65533 CHR ''b''"
  have "ext_dot False ?p = Some 1"
    by (simp add: ext_dot_def MAIN_PATHDELIMITER_def dots_plain)
  then have k: "kept False ?p = 1" by (simp add: kept_def)
  have n: "NUL \<notin> set ?p" by (simp add: NUL_def)
  have l: "length ?p \<le> 65535" by simp
  show ?thesis
    unfolding main_constructoutpath_eq [OF n l] k
    by (simp add: process_def next_ok_def)
qed

subsection \<open>The bound on the input path\<close>

text \<open>Where the scan stops: at the terminator, or at index 65535 of a longer path.\<close>

lemma main_constructoutpath_scan_stop:
  assumes "NUL \<notin> set p"
  shows "fst (main_constructoutpath_scan win p 0 USHRT_MAX USHRT_MAX) = min (length p) 65535"
proof (cases "length p \<le> 65535")
  case True
  then show ?thesis
    using main_constructoutpath_scan_run [of p "[]" "[]" USHRT_MAX win None] assms
    by (simp add: offset_of_def)
next
  case False
  define cs where "cs = take 65535 p"
  define rest where "rest = drop 65535 p"
  have p: "p = cs @ rest" by (simp add: cs_def rest_def)
  have l: "length cs = 65535" using False by (simp add: cs_def)
  have "NUL \<notin> set cs" using assms by (auto simp: cs_def dest: in_set_takeD)
  then have "fst (main_constructoutpath_scan win p 0 USHRT_MAX USHRT_MAX) = 65535"
    using main_constructoutpath_scan_run [of cs "[]" rest USHRT_MAX win None] l
    by (simp add: offset_of_def p)
  with False show ?thesis by simp
qed

text \<open>The buffer allocated holds exactly the output path and its terminator.\<close>

lemma main_constructoutpath_buffer:
  assumes "NUL \<notin> set p" and "fst (main_constructoutpath win p w) = Some out"
  shows "length out \<le> length p + 2"
    and "trace (snd (main_constructoutpath win p w)) = trace w @ [Malloc (length out + 1) True]"
proof -
  have len: "length p \<le> 65535"
  proof (rule ccontr)
    assume "\<not> length p \<le> 65535"
    then have "main_constructoutpath win p w = (None, w)"
      using assms(1) by (intro main_constructoutpath_too_long) simp_all
    with assms(2) show False by simp
  qed
  note eq = main_constructoutpath_eq [OF assms(1) len, of win w]
  from assms(2) have k: "kept win p \<le> 65532" and ok: "\<not> crashed w" "next_ok w"
    and out: "out = take (kept win p) p @ ''. ''"
    unfolding eq by (auto split: if_splits)
  have l: "length out = kept win p + 2"
    using kept_le [of win p] by (simp add: out)
  then show "length out \<le> length p + 2" using kept_le [of win p] by simp
  show "trace (snd (main_constructoutpath win p w)) = trace w @ [Malloc (length out + 1) True]"
    unfolding eq using k ok l by (simp add: malloc_def record_call_def)
qed

lemma main_constructoutpath_one_more:
  assumes "NUL \<notin> set p" and "length p = 65535"
    and "case ext_dot win p of None \<Rightarrow> True | Some i \<Rightarrow> i = 0 \<or> 65532 < i"
  shows "main_constructoutpath win p w = (None, w)"
proof -
  have "65532 < kept win p"
    using assms(2,3) by (auto simp: kept_def split: option.splits)
  then show ?thesis
    using main_constructoutpath_eq [OF assms(1), of win w] assms(2) by simp
qed

text \<open>
  C8, as amended. For every input path whose length with the terminator is at most
  65535 and whose extension dot, if it has one, is not its first character:
  \<^verbatim>\<open>main_constructoutpath\<close> returns the characters before the extension dot (the
  whole path when the file name has no full stop) followed by \<open>. \<close> exactly when these,
  the two characters of the extension and the terminator fit in 65535 characters and
  the allocation succeeds, and the null pointer otherwise. So a path of exactly 65535
  characters with its terminator succeeds only if its extension dot is at most at
  index 65532. A path one character longer gives the null pointer, with nothing
  allocated, unless its extension dot is at an index from 1 to 65532; so does every
  path longer than that. On every path the scan stops at the terminator or at index
  65535, whichever comes first, so that no character behind that index is read; and
  when a path is returned, the buffer allocated has the size of that path with its
  terminator, and that path is at most two characters longer than the input.
\<close>

theorem constructoutpath_bound:
  assumes "NUL \<notin> set p"
  shows "(length p + 1 \<le> 65535 \<and> ext_dot win p \<noteq> Some 0 \<longrightarrow>
            fst (main_constructoutpath win p w) =
              (if stem_length win p + 3 \<le> 65535 \<and> \<not> crashed w \<and> next_ok w
               then Some (take (stem_length win p) p @ ''. '') else None))
       \<and> (length p + 1 = 65536
            \<and> (case ext_dot win p of None \<Rightarrow> True | Some i \<Rightarrow> i = 0 \<or> 65532 < i)
          \<longrightarrow> main_constructoutpath win p w = (None, w))
       \<and> (65536 < length p + 1 \<longrightarrow> main_constructoutpath win p w = (None, w))
       \<and> fst (main_constructoutpath_scan win p 0 USHRT_MAX USHRT_MAX) = min (length p) 65535
       \<and> (fst (main_constructoutpath win p w) \<noteq> None \<longrightarrow>
            length (the (fst (main_constructoutpath win p w))) \<le> length p + 2
            \<and> trace (snd (main_constructoutpath win p w))
                = trace w @ [Malloc (length (the (fst (main_constructoutpath win p w))) + 1) True])"
proof (intro conjI impI)
  assume a: "length p + 1 \<le> 65535 \<and> ext_dot win p \<noteq> Some 0"
  then have "length p \<le> 65535" by simp
  then show "fst (main_constructoutpath win p w) =
              (if stem_length win p + 3 \<le> 65535 \<and> \<not> crashed w \<and> next_ok w
               then Some (take (stem_length win p) p @ ''. '') else None)"
    using main_constructoutpath_eq [OF assms, of win w] kept_stem_length [of win p] a
    by simp
next
  assume "length p + 1 = 65536
            \<and> (case ext_dot win p of None \<Rightarrow> True | Some i \<Rightarrow> i = 0 \<or> 65532 < i)"
  then show "main_constructoutpath win p w = (None, w)"
    using assms by (intro main_constructoutpath_one_more) simp_all
next
  assume "65536 < length p + 1"
  then have "65535 < length p" by simp
  with assms show "main_constructoutpath win p w = (None, w)"
    by (rule main_constructoutpath_too_long)
next
  show "fst (main_constructoutpath_scan win p 0 USHRT_MAX USHRT_MAX) = min (length p) 65535"
    using assms by (rule main_constructoutpath_scan_stop)
next
  assume "fst (main_constructoutpath win p w) \<noteq> None"
  then obtain out where out: "fst (main_constructoutpath win p w) = Some out" by auto
  from main_constructoutpath_buffer [OF assms out]
  show "length (the (fst (main_constructoutpath win p w))) \<le> length p + 2"
    and "trace (snd (main_constructoutpath win p w))
           = trace w @ [Malloc (length (the (fst (main_constructoutpath win p w))) + 1) True]"
    by (simp_all add: out)
qed

theorem constructoutpath_bound_witness:
  "NUL \<notin> set ''a/b/c.bin'' \<and> length ''a/b/c.bin'' + 1 \<le> 65535 \<and>
   ext_dot False ''a/b/c.bin'' \<noteq> Some 0 \<and>
   fst (main_constructoutpath False ''a/b/c.bin'' (process [] False [])) = Some ''a/b/c. '' \<and>
   fst (main_constructoutpath_scan False ''a/b/c.bin'' 0 USHRT_MAX USHRT_MAX) = 9 \<and>
   trace (snd (main_constructoutpath False ''a/b/c.bin'' (process [] False []))) = [Malloc 8 True] \<and>
   NUL \<notin> set (replicate 65535 CHR ''a'') \<and> length (replicate 65535 CHR ''a'') + 1 = 65536 \<and>
   ext_dot False (replicate 65535 CHR ''a'') = None \<and>
   main_constructoutpath False (replicate 65535 CHR ''a'') (process [] False [])
     = (None, process [] False []) \<and>
   NUL \<notin> set (replicate 65536 CHR ''a'') \<and> 65536 < length (replicate 65536 CHR ''a'') + 1 \<and>
   main_constructoutpath False (replicate 65536 CHR ''a'') (process [] False [])
     = (None, process [] False [])"
  using constructoutpath_bound [of "''a/b/c.bin''" False "process [] False []"]
    constructoutpath_bound [of "replicate 65535 CHR ''a''" False "process [] False []"]
    constructoutpath_bound [of "replicate 65536 CHR ''a''" False "process [] False []"]
  by (simp add: NUL_def ext_dot_def stem_length_def MAIN_PATHDELIMITER_def process_def next_ok_def
        dots_plain)

theorem constructoutpath_exact_bound_counterexample:
  "length (replicate 65534 CHR ''a'') + 1 = 65535 \<and>
   fst (main_constructoutpath False (replicate 65534 CHR ''a'') (process [] False [])) = None"
proof
  show "length (replicate 65534 CHR ''a'') + 1 = 65535"
    by (simp only: length_replicate)
  show "fst (main_constructoutpath False (replicate 65534 CHR ''a'') (process [] False [])) = None"
    by (rule main_constructoutpath_long_stem)
       (simp_all add: NUL_def MAIN_PATHDELIMITER_def)
qed

subsection \<open>The file name and the symbol\<close>

text \<open>
  The index just behind the last delimiter, by a forward scan; \<open>0\<close> without a
  delimiter.
\<close>

fun seps :: "bool \<Rightarrow> string \<Rightarrow> nat \<Rightarrow> nat \<Rightarrow> nat" where
  "seps win [] i acc = acc"
| "seps win (c # cs) i acc =
     seps win cs (Suc i) (if c = MAIN_PATHDELIMITER win then Suc i else acc)"

definition name_start :: "bool \<Rightarrow> string \<Rightarrow> nat" where
  "name_start win p = seps win p 0 0"

definition terminus_of :: "nat option \<Rightarrow> 16 word" where
  "terminus_of d = (case d of None \<Rightarrow> 0 | Some i \<Rightarrow> of_nat (65535 - i))"

lemma seps_append:
  "seps win (xs @ [c]) i acc =
     (if c = MAIN_PATHDELIMITER win then Suc (i + length xs) else seps win xs i acc)"
  by (induction xs arbitrary: i acc) simp_all

lemma seps_bound: "d \<le> k \<Longrightarrow> seps win cs k d \<le> k + length cs"
proof (induction cs arbitrary: k d)
  case Nil
  then show ?case by simp
next
  case (Cons c cs)
  have "seps win cs (Suc k) (if c = MAIN_PATHDELIMITER win then Suc k else d) \<le> Suc k + length cs"
    using Cons.prems by (intro Cons.IH) simp
  then show ?case by simp
qed

lemma name_start_le: "name_start win p \<le> length p"
  unfolding name_start_def using seps_bound [of 0 0 win p] by simp

lemma seps_le_dots:
  "d \<le> k \<Longrightarrow> (\<And>j. t = Some j \<Longrightarrow> d \<le> j) \<Longrightarrow> dots win cs k t = Some i
     \<Longrightarrow> seps win cs k d \<le> i"
proof (induction cs arbitrary: k t d)
  case Nil
  then show ?case by simp
next
  case (Cons c cs)
  let ?t = "if c = CHR ''.'' then Some k else if c = MAIN_PATHDELIMITER win then None else t"
  let ?d = "if c = MAIN_PATHDELIMITER win then Suc k else d"
  have "seps win cs (Suc k) ?d \<le> i"
  proof (rule Cons.IH [of ?d "Suc k" ?t])
    show "?d \<le> Suc k" using Cons.prems(1) by simp
    show "dots win cs (Suc k) ?t = Some i" using Cons.prems(3) by simp
    fix j assume "?t = Some j"
    then show "?d \<le> j" using Cons.prems(1,2)
      by (auto split: if_splits simp: MAIN_PATHDELIMITER_def)
  qed
  then show ?case by simp
qed

lemma name_start_le_ext_dot: "ext_dot win p = Some i \<Longrightarrow> name_start win p \<le> i"
  unfolding ext_dot_def name_start_def by (rule seps_le_dots [of 0 0 None]) simp_all

text \<open>The file name is what follows the last delimiter.\<close>

lemma drop_name_start:
  "drop (name_start win p) p = rev (takeWhile (\<lambda>c. c \<noteq> MAIN_PATHDELIMITER win) (rev p))"
proof (induction p rule: rev_induct)
  case Nil
  then show ?case by (simp add: name_start_def)
next
  case (snoc c xs)
  have n: "name_start win (xs @ [c]) =
             (if c = MAIN_PATHDELIMITER win then Suc (length xs) else name_start win xs)"
    by (simp add: name_start_def seps_append)
  show ?case
    using snoc.IH name_start_le [of win xs] by (simp add: n)
qed

lemma countdown_delimiter:
  assumes "unat (len :: 16 word) = 65535 - i" and "i \<le> 65534"
  shows "USHRT_MAX - len + 1 = of_nat (Suc i)"
proof -
  have "len \<le> USHRT_MAX" using assms by (simp add: word_le_nat_alt)
  then have "unat (USHRT_MAX - len) = i" using assms by (simp add: unat_sub)
  moreover have "unat (of_nat i :: 16 word) = i" using assms(2) by (intro word16_of_nat) simp
  ultimately have "USHRT_MAX - len = of_nat i" by (simp only: word_unat_eq_iff)
  then show ?thesis by simp
qed

lemma main_findname_scan_run:
  assumes "NUL \<notin> set cs" and "length pre + length cs \<le> 65535"
    and "rest = [] \<or> length pre + length cs = 65535"
    and "unat len = 65535 - length pre"
  shows "main_findname_scan win (pre @ cs @ rest) (length pre) len (of_nat d) =
           (length pre + length cs, len - of_nat (length cs),
            of_nat (seps win cs (length pre) d))"
  using assms
proof (induction cs arbitrary: pre len d)
  case Nil
  show ?case
  proof (cases "len > 0")
    case True
    then have "unat len \<noteq> 0" by (simp add: word_greater_zero_iff unat_eq_zero)
    then have "rest = []" using Nil.prems by auto
    then show ?thesis
      by (subst main_findname_scan.simps) (simp add: True)
  next
    case False
    then show ?thesis
      by (subst main_findname_scan.simps) simp
  qed
next
  case (Cons c cs)
  have i: "length pre \<le> 65534" using Cons.prems by simp
  note cw = countdown_word [OF Cons.prems(4) i]
  note cd = countdown_delimiter [OF Cons.prems(4) i]
  have c: "c \<noteq> NUL" using Cons.prems by auto
  have here: "deref (pre @ (c # cs) @ rest) (length pre) = c"
    using deref_append_here [of pre c "cs @ rest"] by simp
  have ih: "main_findname_scan win (pre @ (c # cs) @ rest) (Suc (length pre)) (len - 1) (of_nat a) =
           (length pre + length (c # cs), len - of_nat (length (c # cs)),
            of_nat (seps win cs (Suc (length pre)) a))" for a
  proof -
    have "main_findname_scan win ((pre @ [c]) @ cs @ rest) (length (pre @ [c])) (len - 1) (of_nat a) =
           (length (pre @ [c]) + length cs, (len - 1) - of_nat (length cs),
            of_nat (seps win cs (length (pre @ [c])) a))"
      using Cons.prems cw by (intro Cons.IH) auto
    then show ?thesis by (simp add: diff_diff_eq)
  qed
  have step: "main_findname_scan win (pre @ (c # cs) @ rest) (length pre) len (of_nat d) =
      (if c = MAIN_PATHDELIMITER win
       then main_findname_scan win (pre @ (c # cs) @ rest) (Suc (length pre)) (len - 1) (of_nat (Suc (length pre)))
       else main_findname_scan win (pre @ (c # cs) @ rest) (Suc (length pre)) (len - 1) (of_nat d))"
    apply (subst main_findname_scan.simps)
    apply (simp only: cw(1) if_True here c if_False cd)
    apply simp
    done
  show ?case
    unfolding step ih by simp
qed

lemma main_findname_eq:
  assumes nul: "NUL \<notin> set p" and len: "length p \<le> 65535"
  shows "main_findname win p = name_start win p"
proof -
  have scan: "main_findname_scan win p 0 USHRT_MAX 0 =
          (length p, USHRT_MAX - of_nat (length p), of_nat (name_start win p))"
    using main_findname_scan_run [of p "[]" "[]" USHRT_MAX win 0] nul len
    by (simp add: name_start_def)
  have a: "unat (of_nat (length p) :: 16 word) = length p"
    using len by (intro word16_of_nat) simp
  then have "(of_nat (length p) :: 16 word) \<le> USHRT_MAX"
    using len by (simp add: word_le_nat_alt)
  then have ulen: "unat (USHRT_MAX - of_nat (length p) :: 16 word) = 65535 - length p"
    using a by (simp add: unat_sub)
  have ns: "name_start win p \<le> length p" by (rule name_start_le)
  then have d: "unat (of_nat (name_start win p) :: 16 word) = name_start win p"
    using len by (intro word16_of_nat) simp
  show ?thesis
    unfolding main_findname_def scan prod.case Let_def
    using ulen d ns len by (simp add: uint_nat)
qed

lemma main_shortenname_scan_run:
  assumes "NUL \<notin> set cs" and "length pre + length cs \<le> 65535"
    and "rest = [] \<or> length pre + length cs = 65535"
    and "unat len = 65535 - length pre"
  shows "main_shortenname_scan win (pre @ cs @ rest) (length pre) len (terminus_of t) (of_nat d) =
           (length pre + length cs, len - of_nat (length cs),
            terminus_of (dots win cs (length pre) t), of_nat (seps win cs (length pre) d))"
  using assms
proof (induction cs arbitrary: pre len t d)
  case Nil
  show ?case
  proof (cases "len > 0")
    case True
    then have "unat len \<noteq> 0" by (simp add: word_greater_zero_iff unat_eq_zero)
    then have "rest = []" using Nil.prems by auto
    then show ?thesis
      by (subst main_shortenname_scan.simps) (simp add: True)
  next
    case False
    then show ?thesis
      by (subst main_shortenname_scan.simps) simp
  qed
next
  case (Cons c cs)
  have i: "length pre \<le> 65534" using Cons.prems by simp
  note cw = countdown_word [OF Cons.prems(4) i]
  note cd = countdown_delimiter [OF Cons.prems(4) i]
  have c: "c \<noteq> NUL" using Cons.prems by auto
  have here: "deref (pre @ (c # cs) @ rest) (length pre) = c"
    using deref_append_here [of pre c "cs @ rest"] by simp
  have ih: "main_shortenname_scan win (pre @ (c # cs) @ rest) (Suc (length pre)) (len - 1)
              (terminus_of a) (of_nat b) =
           (length pre + length (c # cs), len - of_nat (length (c # cs)),
            terminus_of (dots win cs (Suc (length pre)) a),
            of_nat (seps win cs (Suc (length pre)) b))" for a b
  proof -
    have "main_shortenname_scan win ((pre @ [c]) @ cs @ rest) (length (pre @ [c])) (len - 1)
              (terminus_of a) (of_nat b) =
           (length (pre @ [c]) + length cs, (len - 1) - of_nat (length cs),
            terminus_of (dots win cs (length (pre @ [c])) a),
            of_nat (seps win cs (length (pre @ [c])) b))"
      using Cons.prems cw by (intro Cons.IH) auto
    then show ?thesis by (simp add: diff_diff_eq)
  qed
  have dot: "len = terminus_of (Some (length pre))"
    unfolding terminus_of_def option.case by (rule cw(3))
  have none: "0 = terminus_of None"
    by (simp add: terminus_of_def)
  have step: "main_shortenname_scan win (pre @ (c # cs) @ rest) (length pre) len (terminus_of t) (of_nat d) =
      (if c = CHR ''.''
       then main_shortenname_scan win (pre @ (c # cs) @ rest) (Suc (length pre)) (len - 1)
              (terminus_of (Some (length pre))) (of_nat d)
       else if c = MAIN_PATHDELIMITER win
       then main_shortenname_scan win (pre @ (c # cs) @ rest) (Suc (length pre)) (len - 1)
              (terminus_of None) (of_nat (Suc (length pre)))
       else main_shortenname_scan win (pre @ (c # cs) @ rest) (Suc (length pre)) (len - 1)
              (terminus_of t) (of_nat d))"
    apply (subst main_shortenname_scan.simps)
    apply (simp only: cw(1) if_True here c if_False cd dot [symmetric] none [symmetric])
    apply simp
    done
  have nd: "CHR ''.'' \<noteq> MAIN_PATHDELIMITER win" by (simp add: MAIN_PATHDELIMITER_def)
  show ?case
    unfolding step ih using nd by simp
qed

text \<open>
  \<^verbatim>\<open>main_shortenname\<close> on a path of at most 65535 characters: the terminator goes
  over the extension dot, and the result points behind the last delimiter.
\<close>

lemma main_shortenname_eq:
  assumes nul: "NUL \<notin> set p" and len: "length p \<le> 65535"
  shows "main_shortenname win p =
           ((case ext_dot win p of None \<Rightarrow> p | Some i \<Rightarrow> p[i := NUL]), name_start win p)"
proof -
  have scan: "main_shortenname_scan win p 0 USHRT_MAX 0 0 =
          (length p, USHRT_MAX - of_nat (length p), terminus_of (ext_dot win p),
           of_nat (name_start win p))"
    using main_shortenname_scan_run [of p "[]" "[]" USHRT_MAX win None 0] nul len
    by (simp add: name_start_def ext_dot_def terminus_of_def)
  have a: "unat (of_nat (length p) :: 16 word) = length p"
    using len by (intro word16_of_nat) simp
  then have "(of_nat (length p) :: 16 word) \<le> USHRT_MAX"
    using len by (simp add: word_le_nat_alt)
  then have ulen: "unat (USHRT_MAX - of_nat (length p) :: 16 word) = 65535 - length p"
    using a by (simp add: unat_sub)
  have ns: "name_start win p \<le> length p" by (rule name_start_le)
  then have d: "unat (of_nat (name_start win p) :: 16 word) = name_start win p"
    using len by (intro word16_of_nat) simp
  have path: "nat (int (length p) - (uint USHRT_MAX - uint (USHRT_MAX - of_nat (length p) :: 16 word)
                - uint (of_nat (name_start win p) :: 16 word))) = name_start win p"
    using ulen d ns len by (simp add: uint_nat)
  show ?thesis
  proof (cases "ext_dot win p")
    case None
    then show ?thesis
      unfolding main_shortenname_def scan prod.case Let_def path
      by (simp add: terminus_of_def)
  next
    case (Some i)
    have i: "i < length p" using Some by (rule ext_dot_bound)
    have ni: "name_start win p \<le> i" using Some by (rule name_start_le_ext_dot)
    have ut: "unat (of_nat (65535 - i) :: 16 word) = 65535 - i"
      by (rule word16_of_nat) simp
    have "(of_nat (65535 - i) :: 16 word) \<noteq> 0"
    proof
      assume "(of_nat (65535 - i) :: 16 word) = 0"
      then have "unat (of_nat (65535 - i) :: 16 word) = unat (0 :: 16 word)"
        by (rule arg_cong)
      then have "65535 - i = 0" unfolding ut by simp
      then show False using i len by simp
    qed
    then have pos: "terminus_of (ext_dot win p) > 0"
      unfolding Some terminus_of_def option.case
      by (simp add: word_greater_zero_iff del: of_nat_diff)
    have le1: "(of_nat (65535 - i) :: 16 word) \<le> USHRT_MAX"
      using ut by (simp add: word_le_nat_alt)
    have u1: "unat (USHRT_MAX - of_nat (65535 - i) :: 16 word) = i"
      using le1 ut i len by (simp add: unat_sub del: of_nat_diff)
    have le2: "(of_nat (name_start win p) :: 16 word) \<le> USHRT_MAX - of_nat (65535 - i)"
      using u1 d ni by (simp add: word_le_nat_alt del: of_nat_diff)
    have u2: "unat (USHRT_MAX - terminus_of (ext_dot win p) - of_nat (name_start win p) :: 16 word)
                = i - name_start win p"
      unfolding Some terminus_of_def option.case
      using le2 u1 d by (simp add: unat_sub del: of_nat_diff)
    show ?thesis
      unfolding main_shortenname_def scan prod.case Let_def path
      using pos u2 ni by (simp add: Some)
  qed
qed

text \<open>
  The symbol, which the caller reads from the pointer returned: the file name up to its
  extension dot.
\<close>

lemma main_shortenname_symbol:
  assumes nul: "NUL \<notin> set p" and len: "length p \<le> 65535"
  shows "(let (mem, name) = main_shortenname win p in cstr (drop name mem)) =
           (case ext_dot win p of
              None \<Rightarrow> drop (name_start win p) p
            | Some i \<Rightarrow> take (i - name_start win p) (drop (name_start win p) p))"
proof (cases "ext_dot win p")
  case None
  have "cstr (drop (name_start win p) p) = drop (name_start win p) p"
    unfolding cstr_def using nul by (intro takeWhile_eq_all_conv [THEN iffD2]) (auto dest: in_set_dropD)
  then show ?thesis
    by (simp add: main_shortenname_eq [OF nul len] None)
next
  case (Some i)
  have i: "i < length p" using Some by (rule ext_dot_bound)
  have ni: "name_start win p \<le> i" using Some by (rule name_start_le_ext_dot)
  let ?n = "name_start win p"
  have "drop ?n (p[i := NUL]) = (drop ?n p)[i - ?n := NUL]"
    using ni by (simp add: drop_update_swap)
  also have "\<dots> = take (i - ?n) (drop ?n p) @ NUL # drop (Suc (i - ?n)) (drop ?n p)"
    using i ni by (intro upd_conv_take_nth_drop) simp
  finally have upd: "drop ?n (p[i := NUL]) =
      take (i - ?n) (drop ?n p) @ NUL # drop (Suc (i - ?n)) (drop ?n p)" .
  have "\<forall>c \<in> set (take (i - ?n) (drop ?n p)). c \<noteq> NUL"
    using nul by (auto dest!: in_set_takeD in_set_dropD)
  then have "cstr (drop ?n (p[i := NUL])) = take (i - ?n) (drop ?n p)"
    unfolding cstr_def upd by (subst takeWhile_append2) auto
  then show ?thesis
    by (simp add: main_shortenname_eq [OF nul len] Some)
qed

subsection \<open>The extension that is replaced\<close>

lemmas path_defs = main_shortenname_def main_shortenname_scan.simps main_findname_def
  main_findname_scan.simps deref_def MAIN_PATHDELIMITER_def NUL_def cstr_def USHRT_MAX_def

lemma main_constructoutpath_short:
  assumes "NUL \<notin> set p" and "length p \<le> 65532"
  shows "fst (main_constructoutpath win p (process [] False [])) = Some (take (kept win p) p @ ''. '')"
proof -
  have "kept win p \<le> 65532" using kept_le [of win p] assms(2) by simp
  then show ?thesis
    using main_constructoutpath_eq [OF assms(1), of win "process [] False []"] assms(2)
    by (simp add: process_def next_ok_def)
qed

text \<open>
  C7 at the path \<open>.bin\<close>, whose extension dot is its first character:
  \<^verbatim>\<open>main_constructoutpath\<close> keeps the extension, where \<^verbatim>\<open>main_shortenname\<close> removes it
  and where the same function removes it from \<open>a/.bin\<close>. The examples of the claim
  come out as it says, and so does the file name of every path within the bound
  (\<open>main_findname_eq\<close>, \<open>drop_name_start\<close>, \<open>main_shortenname_symbol\<close>).
\<close>

theorem constructoutpath_leading_dot:
  "fst (main_constructoutpath False ''.bin'' (process [] False [])) = Some ''.bin. '' \<and>
   fst (main_constructoutpath False ''a/.bin'' (process [] False [])) = Some ''a/. '' \<and>
   (let (mem, name) = main_shortenname False ''.bin'' in cstr (drop name mem)) = '''' \<and>
   fst (main_constructoutpath False ''a/b/c.bin'' (process [] False [])) = Some ''a/b/c. '' \<and>
   (let (mem, name) = main_shortenname False ''a/b/c.bin'' in cstr (drop name mem)) = ''c'' \<and>
   drop (main_findname False ''a/b/c.bin'') ''a/b/c.bin'' = ''c.bin'' \<and>
   fst (main_constructoutpath False ''c'' (process [] False [])) = Some ''c. ''"
proof (intro conjI)
  show "fst (main_constructoutpath False ''.bin'' (process [] False [])) = Some ''.bin. ''"
    by (subst main_constructoutpath_short)
       (simp_all add: NUL_def kept_def ext_dot_def MAIN_PATHDELIMITER_def)
  show "fst (main_constructoutpath False ''a/.bin'' (process [] False [])) = Some ''a/. ''"
    by (subst main_constructoutpath_short)
       (simp_all add: NUL_def kept_def ext_dot_def MAIN_PATHDELIMITER_def)
  show "fst (main_constructoutpath False ''a/b/c.bin'' (process [] False [])) = Some ''a/b/c. ''"
    by (subst main_constructoutpath_short)
       (simp_all add: NUL_def kept_def ext_dot_def MAIN_PATHDELIMITER_def)
  show "fst (main_constructoutpath False ''c'' (process [] False [])) = Some ''c. ''"
    by (subst main_constructoutpath_short)
       (simp_all add: NUL_def kept_def ext_dot_def MAIN_PATHDELIMITER_def)
  show "(let (mem, name) = main_shortenname False ''.bin'' in cstr (drop name mem)) = ''''"
    by (simp add: path_defs)
  show "(let (mem, name) = main_shortenname False ''a/b/c.bin'' in cstr (drop name mem)) = ''c''"
    by (simp add: path_defs)
  show "drop (main_findname False ''a/b/c.bin'') ''a/b/c.bin'' = ''c.bin''"
    by (simp add: path_defs)
qed

end
